theory Spec2Isabelle
  imports Main
begin

section \<open>Characters and the two path patterns\<close>

text \<open>
  A path is a Python \<open>str\<close>. It is modelled as a \<open>string\<close> whose characters stand for the
  code points below 256. On these code points the classes of Python's \<open>re\<close> module (for
  \<open>str\<close> patterns) are: \<open>\d\<close> is the ten ASCII digits, \<open>\D\<close> is its complement, and \<open>\w\<close> is
  the ASCII letters, digits and underscore together with the alphanumeric code points of the
  Latin-1 block.
\<close>

definition is_digit :: "char \<Rightarrow> bool" where
  "is_digit c \<longleftrightarrow> (48::nat) \<le> of_char c \<and> of_char c \<le> (57::nat)"

definition is_word :: "char \<Rightarrow> bool" where
  "is_word c \<longleftrightarrow>
     (let n = (of_char c :: nat) in
        (48 \<le> n \<and> n \<le> 57) \<or> (65 \<le> n \<and> n \<le> 90) \<or> n = 95 \<or> (97 \<le> n \<and> n \<le> 122) \<or>
        n = 170 \<or> n = 178 \<or> n = 179 \<or> n = 181 \<or> n = 185 \<or> n = 186 \<or>
        (188 \<le> n \<and> n \<le> 190) \<or> (192 \<le> n \<and> n \<le> 214) \<or> (216 \<le> n \<and> n \<le> 246) \<or>
        248 \<le> n)"

text \<open>The character classes that occur in the two patterns of the class.\<close>

datatype cclass = Lit char | Digit | NonDigit | Word

fun accepts :: "cclass \<Rightarrow> char \<Rightarrow> bool" where
  "accepts (Lit a) c = (c = a)"
| "accepts Digit c = is_digit c"
| "accepts NonDigit c = (\<not> is_digit c)"
| "accepts Word c = is_word c"

text \<open>
  A pattern is a sequence of items: one character of a class, or a greedy \<open>+\<close> repetition of
  a class. The flag says whether the item lies inside capture group 1.
\<close>

datatype item = One cclass bool | Plus cclass bool

text \<open>
  \<open>rmatch\<close> is the backtracking matcher anchored at the start of its input. It returns the
  text of group 1 of the first match in the order in which \<open>re\<close> tries the alternatives:
  a greedy \<open>+\<close> first tries to take one more character and gives it back only when the rest
  of the pattern then fails.
\<close>

fun rmatch :: "item list \<Rightarrow> string \<Rightarrow> string option" where
  "rmatch [] s = Some []"
| "rmatch (One k g # its) [] = None"
| "rmatch (One k g # its) (c # s) =
     (if accepts k c
      then (case rmatch its s of
              None \<Rightarrow> None
            | Some cap \<Rightarrow> Some (if g then c # cap else cap))
      else None)"
| "rmatch (Plus k g # its) [] = None"
| "rmatch (Plus k g # its) (c # s) =
     (if accepts k c
      then (case rmatch (Plus k g # its) s of
              Some cap \<Rightarrow> Some (if g then c # cap else cap)
            | None \<Rightarrow>
                (case rmatch its s of
                   None \<Rightarrow> None
                 | Some cap \<Rightarrow> Some (if g then c # cap else cap)))
      else None)"

text \<open>\<open>re.search\<close>: the match at the leftmost start position that has one.\<close>

fun rsearch :: "item list \<Rightarrow> string \<Rightarrow> string option" where
  "rsearch its [] = rmatch its []"
| "rsearch its (c # s) =
     (case rmatch its (c # s) of
        Some cap \<Rightarrow> Some cap
      | None \<Rightarrow> rsearch its s)"

definition lits :: "string \<Rightarrow> item list" where
  "lits s = map (\<lambda>c. One (Lit c) False) s"

text \<open>\<^verbatim>\<open>regexp_extract_dagrun_dt = re.compile("run_id=\D+__(\d{4}-\d{2}-\d{2})")\<close>\<close>

definition date_items :: "item list" where
  "date_items =
     [One Digit True, One Digit True, One Digit True, One Digit True,
      One (Lit (CHR ''-'')) True,
      One Digit True, One Digit True,
      One (Lit (CHR ''-'')) True,
      One Digit True, One Digit True]"

definition regexp_extract_dagrun_dt :: "item list" where
  "regexp_extract_dagrun_dt =
     lits ''run_id='' @ Plus NonDigit False # lits ''__'' @ date_items"

text \<open>\<^verbatim>\<open>regexp_extract_dag_name = re.compile("dag_id=(\w+)/")\<close>\<close>

definition regexp_extract_dag_name :: "item list" where
  "regexp_extract_dag_name =
     lits ''dag_id='' @ [Plus Word True, One (Lit (CHR ''/'')) False]"

section \<open>Extraction of the workflow name\<close>

text \<open>
  \<open>_extract_dag_name_from_path\<close>: group 1 of the match, and Python's \<open>None\<close> (the function
  falls off its end) when the pattern is not found.
\<close>

definition extract_dag_name_from_path :: "string \<Rightarrow> string option" where
  "extract_dag_name_from_path file_path =
     (case rsearch regexp_extract_dag_name file_path of
        Some dag_name \<Rightarrow> Some dag_name
      | None \<Rightarrow> None)"

section \<open>Calendar dates\<close>

text \<open>
  The exceptions that the modelled code can raise. The first three are Python's own; the last
  two are the failures with which the object store's client can answer a removal request.
\<close>

datatype exn = ValueError | TypeError | OverflowError | ObjectNotFoundError | StoreUnavailableError

text \<open>
  \<open>datetime.date\<close>: a year, a month and a day of the proleptic Gregorian calendar. The
  functions below follow the library's \<open>datetime\<close> module.
\<close>

record date =
  year :: int
  month :: int
  day :: int

definition MINYEAR :: int where "MINYEAR = 1"
definition MAXYEAR :: int where "MAXYEAR = 9999"
definition MAXORDINAL :: int where "MAXORDINAL = 3652059"

definition DAYS_IN_MONTH :: "int list" where
  "DAYS_IN_MONTH = [-1, 31, 28, 31, 30, 31, 30, 31, 31, 30, 31, 30, 31]"

definition DAYS_BEFORE_MONTH :: "int list" where
  "DAYS_BEFORE_MONTH = [-1, 0, 31, 59, 90, 120, 151, 181, 212, 243, 273, 304, 334]"

definition is_leap :: "int \<Rightarrow> bool" where
  "is_leap y \<longleftrightarrow> y mod 4 = 0 \<and> (y mod 100 \<noteq> 0 \<or> y mod 400 = 0)"

definition days_before_year :: "int \<Rightarrow> int" where
  "days_before_year yr = (let y = yr - 1 in y * 365 + y div 4 - y div 100 + y div 400)"

text \<open>The two table lookups are only made with a month between 1 and 12.\<close>

definition days_in_month :: "int \<Rightarrow> int \<Rightarrow> int" where
  "days_in_month y m = (if m = 2 \<and> is_leap y then 29 else DAYS_IN_MONTH ! nat m)"

definition days_before_month :: "int \<Rightarrow> int \<Rightarrow> int" where
  "days_before_month y m = DAYS_BEFORE_MONTH ! nat m + (if m > 2 \<and> is_leap y then 1 else 0)"

definition ymd2ord :: "int \<Rightarrow> int \<Rightarrow> int \<Rightarrow> int" where
  "ymd2ord y m d = days_before_year y + days_before_month y m + d"

definition DI400Y :: int where "DI400Y = 146097"
definition DI100Y :: int where "DI100Y = 36524"
definition DI4Y :: int where "DI4Y = 1461"

definition ord2ymd :: "int \<Rightarrow> date" where
  "ord2ymd n0 =
     (let n = n0 - 1;
          n400 = n div DI400Y; n = n mod DI400Y;
          yr = n400 * 400 + 1;
          n100 = n div DI100Y; n = n mod DI100Y;
          n4 = n div DI4Y; n = n mod DI4Y;
          n1 = n div 365; n = n mod 365;
          yr = yr + (n100 * 100 + n4 * 4 + n1)
      in if n1 = 4 \<or> n100 = 4 then \<lparr>year = yr - 1, month = 12, day = 31\<rparr>
         else
           let leapyear = (n1 = 3 \<and> (n4 \<noteq> 24 \<or> n100 = 3));
               mo = (n + 50) div 32;
               preceding = DAYS_BEFORE_MONTH ! nat mo + (if mo > 2 \<and> leapyear then 1 else 0)
           in if preceding > n
              then let mo' = mo - 1;
                       preceding' = preceding -
                         (DAYS_IN_MONTH ! nat mo' + (if mo' = 2 \<and> leapyear then 1 else 0))
                   in \<lparr>year = yr, month = mo', day = n - preceding' + 1\<rparr>
              else \<lparr>year = yr, month = mo, day = n - preceding + 1\<rparr>)"

text \<open>\<open>date(year, month, day)\<close> with the field check of the constructor.\<close>

definition new_date :: "int \<Rightarrow> int \<Rightarrow> int \<Rightarrow> exn + date" where
  "new_date y m d =
     (if \<not> (MINYEAR \<le> y \<and> y \<le> MAXYEAR) then Inl ValueError
      else if \<not> (1 \<le> m \<and> m \<le> 12) then Inl ValueError
      else if \<not> (1 \<le> d \<and> d \<le> days_in_month y m) then Inl ValueError
      else Inr \<lparr>year = y, month = m, day = d\<rparr>)"

definition toordinal :: "date \<Rightarrow> int" where
  "toordinal dt = ymd2ord (year dt) (month dt) (day dt)"

text \<open>\<open>date.__lt__\<close>: the comparison of the triples (year, month, day).\<close>

definition date_lt :: "date \<Rightarrow> date \<Rightarrow> bool" where
  "date_lt a b \<longleftrightarrow>
     year a < year b \<or> (year a = year b \<and> (month a < month b \<or> (month a = month b \<and> day a < day b)))"

text \<open>\<open>timedelta(days=n)\<close>, represented by its number of days.\<close>

definition timedelta :: "int \<Rightarrow> exn + int" where
  "timedelta days = (if \<bar>days\<bar> > 999999999 then Inl OverflowError else Inr days)"

text \<open>\<open>date.__add__\<close> and \<open>date.__sub__\<close> with a timedelta of the given number of days.\<close>

definition date_add :: "date \<Rightarrow> int \<Rightarrow> exn + date" where
  "date_add dt days =
     (let ord = toordinal dt + days
      in if 0 < ord \<and> ord \<le> MAXORDINAL then Inr (ord2ymd ord) else Inl OverflowError)"

definition date_sub :: "date \<Rightarrow> int \<Rightarrow> exn + date" where
  "date_sub dt days =
     (case timedelta (- days) of
        Inl e \<Rightarrow> Inl e
      | Inr neg \<Rightarrow> date_add dt neg)"

section \<open>Parsing the execution date\<close>

text \<open>
  \<open>datetime.strptime(s, "%Y-%m-%d").date()\<close>. The library turns the format into the regular
  expression \<^verbatim>\<open>(?P<Y>\d\d\d\d)-(?P<m>1[0-2]|0[1-9]|[1-9])-(?P<d>3[0-1]|[1-2]\d|0[1-9]|[1-9]| [1-9])\<close>,
  matches it at the start of the string, raises \<open>ValueError\<close> when it does not match or
  when text remains after the match, and builds the date from the three numbers.
\<close>

definition digit_val :: "char \<Rightarrow> int" where
  "digit_val c = int (of_char c) - 48"

definition in_range :: "char \<Rightarrow> char \<Rightarrow> char \<Rightarrow> bool" where
  "in_range lo hi c \<longleftrightarrow> (of_char lo :: nat) \<le> of_char c \<and> (of_char c :: nat) \<le> of_char hi"

text \<open>
  The alternatives of the month and of the day group, each with the value it reads and the
  text it leaves, in the order in which the matcher tries them.
\<close>

definition month_alts :: "string \<Rightarrow> (int \<times> string) list" where
  "month_alts s =
     (case s of
        a # b # r \<Rightarrow>
          (if a = CHR ''1'' \<and> in_range (CHR ''0'') (CHR ''2'') b then [(10 + digit_val b, r)] else []) @
          (if a = CHR ''0'' \<and> in_range (CHR ''1'') (CHR ''9'') b then [(digit_val b, r)] else []) @
          (if in_range (CHR ''1'') (CHR ''9'') a then [(digit_val a, b # r)] else [])
      | [a] \<Rightarrow> (if in_range (CHR ''1'') (CHR ''9'') a then [(digit_val a, [])] else [])
      | [] \<Rightarrow> [])"

definition day_alts :: "string \<Rightarrow> (int \<times> string) list" where
  "day_alts s =
     (case s of
        a # b # r \<Rightarrow>
          (if a = CHR ''3'' \<and> in_range (CHR ''0'') (CHR ''1'') b then [(30 + digit_val b, r)] else []) @
          (if in_range (CHR ''1'') (CHR ''2'') a \<and> is_digit b
           then [(10 * digit_val a + digit_val b, r)] else []) @
          (if a = CHR ''0'' \<and> in_range (CHR ''1'') (CHR ''9'') b then [(digit_val b, r)] else []) @
          (if in_range (CHR ''1'') (CHR ''9'') a then [(digit_val a, b # r)] else []) @
          (if a = CHR '' '' \<and> in_range (CHR ''1'') (CHR ''9'') b then [(digit_val b, r)] else [])
      | [a] \<Rightarrow> (if in_range (CHR ''1'') (CHR ''9'') a then [(digit_val a, [])] else [])
      | [] \<Rightarrow> [])"

text \<open>All matches of the format's expression at the start of \<open>s\<close>, the first one first.\<close>

definition format_matches :: "string \<Rightarrow> (int \<times> int \<times> int \<times> string) list" where
  "format_matches s =
     (case s of
        y1 # y2 # y3 # y4 # dash # r \<Rightarrow>
          if is_digit y1 \<and> is_digit y2 \<and> is_digit y3 \<and> is_digit y4 \<and> dash = CHR ''-''
          then concat (map (\<lambda>(m, r1).
                 case r1 of
                   [] \<Rightarrow> []
                 | dash2 # r2 \<Rightarrow>
                     if dash2 = CHR ''-''
                     then map (\<lambda>(d, rest).
                            (1000 * digit_val y1 + 100 * digit_val y2 + 10 * digit_val y3 + digit_val y4,
                             m, d, rest)) (day_alts r2)
                     else []) (month_alts r))
          else []
      | _ \<Rightarrow> [])"

definition strptime_Ymd :: "string \<Rightarrow> exn + date" where
  "strptime_Ymd data_string =
     (case format_matches data_string of
        [] \<Rightarrow> Inl ValueError
      | (y, m, d, rest) # _ \<Rightarrow>
          if rest \<noteq> [] then Inl ValueError else new_date y m d)"

text \<open>
  \<open>_extract_dagrun_dt_from_path\<close>: the parsed date of group 1; Python's \<open>None\<close> when the
  pattern is not found; the \<open>ValueError\<close> of \<open>strptime\<close> when group 1 is not a date.
\<close>

definition extract_dagrun_dt_from_path :: "string \<Rightarrow> exn + date option" where
  "extract_dagrun_dt_from_path file_path =
     (case rsearch regexp_extract_dagrun_dt file_path of
        Some dag_run_dt_str \<Rightarrow>
          (case strptime_Ymd dag_run_dt_str of
             Inl e \<Rightarrow> Inl e
           | Inr dag_run_dt \<Rightarrow> Inr (Some dag_run_dt))
      | None \<Rightarrow> Inr None)"

section \<open>The three operations of the cleaner\<close>

text \<open>The object descriptor of the store's client; the code reads its \<open>object_name\<close>.\<close>

record Object =
  bucket_name :: string
  object_name :: string

text \<open>
  \<open>list_log_files\<close>. The listing that \<open>client.list_objects\<close> yields is the first argument;
  \<open>dag_names\<close> is \<open>None\<close> when the argument is omitted. The two generator expressions are
  filters of the listing: \<open>x in dag_names\<close> for the first, truthiness of the extracted name
  (neither \<open>None\<close> nor the empty string) for the second.
\<close>

definition truthy :: "string option \<Rightarrow> bool" where
  "truthy v = (case v of None \<Rightarrow> False | Some s \<Rightarrow> s \<noteq> [])"

definition py_in :: "string option \<Rightarrow> string list \<Rightarrow> bool" where
  "py_in v names = (case v of None \<Rightarrow> False | Some s \<Rightarrow> s \<in> set names)"

definition list_log_files :: "Object list \<Rightarrow> string list option \<Rightarrow> Object list" where
  "list_log_files objects dag_names =
     (if dag_names \<noteq> None \<and> dag_names \<noteq> Some []
      then filter (\<lambda>obj. py_in (extract_dag_name_from_path (object_name obj)) (the dag_names)) objects
      else filter (\<lambda>obj. truthy (extract_dag_name_from_path (object_name obj))) objects)"

text \<open>
  \<open>choose_expired_logs\<close>. The reading of the clock, \<open>datetime.datetime.now().date()\<close>, is the
  argument \<open>now_dt\<close>. The loop appends to \<open>expired_lst\<close>; the comparison of Python's \<open>None\<close>
  with a date raises \<open>TypeError\<close>.
\<close>

fun choose_loop :: "date \<Rightarrow> Object list \<Rightarrow> Object list \<Rightarrow> exn + Object list" where
  "choose_loop expire_deadline [] expired_lst = Inr expired_lst"
| "choose_loop expire_deadline (log_file # log_files) expired_lst =
     (case extract_dagrun_dt_from_path (object_name log_file) of
        Inl e \<Rightarrow> Inl e
      | Inr None \<Rightarrow> Inl TypeError
      | Inr (Some dag_run_dt) \<Rightarrow>
          if date_lt dag_run_dt expire_deadline
          then choose_loop expire_deadline log_files (expired_lst @ [log_file])
          else choose_loop expire_deadline log_files expired_lst)"

definition choose_expired_logs :: "date \<Rightarrow> Object list \<Rightarrow> int \<Rightarrow> exn + Object list" where
  "choose_expired_logs now_dt log_files logs_ttl_days =
     (case timedelta logs_ttl_days of
        Inl e \<Rightarrow> Inl e
      | Inr delta \<Rightarrow>
          (case date_sub now_dt delta of
             Inl e \<Rightarrow> Inl e
           | Inr expire_deadline \<Rightarrow> choose_loop expire_deadline log_files []))"

text \<open>
  \<open>delete_expired_logs\<close>. The world it acts on: the state of the store, the removal requests
  issued so far (bucket and object name, oldest first) and the lines printed so far. The
  store's answer to a removal request is the parameter \<open>remove_object\<close>: the new state of
  the store, or the exception that the client raises. The function returns \<open>None\<close>, so its
  outcome is the exception that left it, if any, and the world it leaves behind.
\<close>

record 's world =
  store :: 's
  requests :: "(string \<times> string) list"
  stdout :: "string list"

fun delete_loop ::
  "('s \<Rightarrow> string \<Rightarrow> string \<Rightarrow> exn + 's) \<Rightarrow> string \<Rightarrow> Object list \<Rightarrow> 's world \<Rightarrow> exn option \<times> 's world"
where
  "delete_loop remove_object dag_logs_bucket [] w = (None, w)"
| "delete_loop remove_object dag_logs_bucket (file # files) w =
     (let w1 = w\<lparr>requests := requests w @ [(dag_logs_bucket, object_name file)]\<rparr>
      in case remove_object (store w) dag_logs_bucket (object_name file) of
           Inl e \<Rightarrow> (Some e, w1)
         | Inr st \<Rightarrow>
             delete_loop remove_object dag_logs_bucket files
               (w1\<lparr>store := st, stdout := stdout w1 @ [''Deleted logfile: '' @ object_name file]\<rparr>))"

definition delete_expired_logs ::
  "('s \<Rightarrow> string \<Rightarrow> string \<Rightarrow> exn + 's) \<Rightarrow> string \<Rightarrow> Object list \<Rightarrow> 's world \<Rightarrow> exn option \<times> 's world"
where
  "delete_expired_logs remove_object dag_logs_bucket log_files w =
     (if length log_files > 0
      then delete_loop remove_object dag_logs_bucket log_files w
      else (None, w\<lparr>stdout := stdout w @ [''No logfiles to delete'']\<rparr>))"

section \<open>Notions used to state the properties\<close>

text \<open>
  A store that holds a list of object names and answers a removal request for a name it
  does not hold with \<open>ObjectNotFoundError\<close>; it serves as a concrete store in examples.
\<close>

definition remove_present :: "string list \<Rightarrow> string \<Rightarrow> string \<Rightarrow> exn + string list" where
  "remove_present st bucket name =
     (if name \<in> set st then Inr (remove1 name st) else Inl ObjectNotFoundError)"

definition deleted_line :: "Object \<Rightarrow> string" where
  "deleted_line file = ''Deleted logfile: '' @ object_name file"

text \<open>An object has a date when its path yields one; it is expired when that date lies
  strictly before the deadline.\<close>

definition has_date :: "Object \<Rightarrow> bool" where
  "has_date f =
     (case extract_dagrun_dt_from_path (object_name f) of
        Inr (Some d) \<Rightarrow> True
      | _ \<Rightarrow> False)"

definition is_expired :: "date \<Rightarrow> Object \<Rightarrow> bool" where
  "is_expired deadline f =
     (case extract_dagrun_dt_from_path (object_name f) of
        Inr (Some d) \<Rightarrow> date_lt d deadline
      | _ \<Rightarrow> False)"

text \<open>
  The text \<open>dddd-dd-dd\<close> that group 1 of the date pattern captures, the three numbers
  written in it, and the dates of the calendar: years 1 to 9999, months 1 to 12, and days up
  to the length of the month, February having 29 days in the years divisible by 4 that are
  not divisible by 100 or are divisible by 400.
\<close>

definition date_shaped :: "string \<Rightarrow> bool" where
  "date_shaped s \<longleftrightarrow>
     length s = 10 \<and> is_digit (s ! 0) \<and> is_digit (s ! 1) \<and> is_digit (s ! 2) \<and> is_digit (s ! 3) \<and>
     s ! 4 = CHR ''-'' \<and> is_digit (s ! 5) \<and> is_digit (s ! 6) \<and>
     s ! 7 = CHR ''-'' \<and> is_digit (s ! 8) \<and> is_digit (s ! 9)"

definition year_of :: "string \<Rightarrow> int" where
  "year_of s = 1000 * digit_val (s ! 0) + 100 * digit_val (s ! 1) + 10 * digit_val (s ! 2) + digit_val (s ! 3)"

definition month_of :: "string \<Rightarrow> int" where
  "month_of s = 10 * digit_val (s ! 5) + digit_val (s ! 6)"

definition day_of :: "string \<Rightarrow> int" where
  "day_of s = 10 * digit_val (s ! 8) + digit_val (s ! 9)"

definition valid_calendar_date :: "int \<Rightarrow> int \<Rightarrow> int \<Rightarrow> bool" where
  "valid_calendar_date y m d \<longleftrightarrow>
     1 \<le> y \<and> y \<le> 9999 \<and> 1 \<le> m \<and> m \<le> 12 \<and> 1 \<le> d \<and>
     d \<le> (if m = 2 then (if y mod 4 = 0 \<and> (y mod 100 \<noteq> 0 \<or> y mod 400 = 0) then 29 else 28)
          else if m = 4 \<or> m = 6 \<or> m = 9 \<or> m = 11 then 30 else 31)"


text \<open>A date value is valid when its three fields form a date of the calendar.\<close>

definition valid_date :: "date \<Rightarrow> bool" where
  "valid_date dt = valid_calendar_date (year dt) (month dt) (day dt)"

text \<open>
  The last step of \<open>_ord2ymd\<close>, month and day from the offset \<open>n\<close> within the year, named so
  that it can be reasoned about on its own; \<open>ord2ymd_eq\<close> below shows that \<open>ord2ymd\<close> ends
  with it.
\<close>

definition month_day :: "int \<Rightarrow> bool \<Rightarrow> int \<Rightarrow> date" where
  "month_day yr leapyear n =
     (let mo = (n + 50) div 32;
          preceding = DAYS_BEFORE_MONTH ! nat mo + (if mo > 2 \<and> leapyear then 1 else 0)
      in if preceding > n
         then let mo' = mo - 1;
                  preceding' = preceding -
                    (DAYS_IN_MONTH ! nat mo' + (if mo' = 2 \<and> leapyear then 1 else 0))
              in \<lparr>year = yr, month = mo', day = n - preceding' + 1\<rparr>
         else \<lparr>year = yr, month = mo, day = n - preceding + 1\<rparr>)"

text \<open>
  The date \<open>ttl\<close> days before \<open>now_dt\<close> as the library computes it, through the day
  number.
\<close>

definition deadline_of :: "date \<Rightarrow> int \<Rightarrow> date" where
  "deadline_of now_dt ttl = ord2ymd (toordinal now_dt - ttl)"

section \<open>Unfolding the model on concrete inputs\<close>

lemmas date_defs = timedelta_def date_sub_def date_add_def toordinal_def ymd2ord_def
  days_before_year_def days_before_month_def days_in_month_def DAYS_BEFORE_MONTH_def
  DAYS_IN_MONTH_def is_leap_def MAXORDINAL_def MINYEAR_def MAXYEAR_def ord2ymd_def
  DI400Y_def DI100Y_def DI4Y_def date_lt_def new_date_def

lemmas parse_defs = extract_dagrun_dt_from_path_def regexp_extract_dagrun_dt_def lits_def
  date_items_def is_digit_def strptime_Ymd_def format_matches_def month_alts_def day_alts_def
  in_range_def digit_val_def

section \<open>The matcher and the search\<close>

lemma rmatch_lits:
  "rmatch (lits l @ its) s = (if take (length l) s = l then rmatch its (drop (length l) s) else None)"
proof (induction l arbitrary: s)
  case Nil
  then show ?case by (simp add: lits_def)
next
  case (Cons a l)
  show ?case
  proof (cases s)
    case Nil
    then show ?thesis by (simp add: lits_def)
  next
    case (Cons c s')
    with Cons.IH [of s'] show ?thesis
      by (auto simp: lits_def split: option.splits)
  qed
qed

lemma rsearch_Some_iff:
  "rsearch its s = Some cap \<longleftrightarrow>
     (\<exists>i\<le>length s. rmatch its (drop i s) = Some cap \<and> (\<forall>j<i. rmatch its (drop j s) = None))"
proof (induction s)
  case Nil
  then show ?case by simp
next
  case (Cons c s)
  show ?case
  proof (cases "rmatch its (c # s)")
    case (Some cap')
    have "(\<exists>i\<le>length (c # s). rmatch its (drop i (c # s)) = Some cap \<and> (\<forall>j<i. rmatch its (drop j (c # s)) = None))
          \<longleftrightarrow> cap' = cap"
    proof
      assume "\<exists>i\<le>length (c # s). rmatch its (drop i (c # s)) = Some cap \<and> (\<forall>j<i. rmatch its (drop j (c # s)) = None)"
      then obtain i where i: "rmatch its (drop i (c # s)) = Some cap" "\<forall>j<i. rmatch its (drop j (c # s)) = None"
        by blast
      have "i = 0"
      proof (rule ccontr)
        assume "i \<noteq> 0"
        then have "rmatch its (drop 0 (c # s)) = None" using i(2) by blast
        with Some show False by simp
      qed
      with i(1) Some show "cap' = cap" by simp
    next
      assume "cap' = cap"
      with Some have "rmatch its (drop 0 (c # s)) = Some cap \<and> (\<forall>j<0. rmatch its (drop j (c # s)) = None)"
        by simp
      then show "\<exists>i\<le>length (c # s). rmatch its (drop i (c # s)) = Some cap \<and> (\<forall>j<i. rmatch its (drop j (c # s)) = None)"
        by blast
    qed
    with Some show ?thesis by simp
  next
    case None
    have "(\<exists>i\<le>length (c # s). rmatch its (drop i (c # s)) = Some cap \<and> (\<forall>j<i. rmatch its (drop j (c # s)) = None))
          \<longleftrightarrow> (\<exists>i\<le>length s. rmatch its (drop i s) = Some cap \<and> (\<forall>j<i. rmatch its (drop j s) = None))"
      (is "?L \<longleftrightarrow> ?R")
    proof
      assume ?L
      then obtain i where i: "i \<le> length (c # s)" "rmatch its (drop i (c # s)) = Some cap"
        "\<forall>j<i. rmatch its (drop j (c # s)) = None" by blast
      from i(2) None obtain k where k: "i = Suc k" by (cases i) auto
      have "\<forall>j<k. rmatch its (drop j s) = None"
      proof (intro allI impI)
        fix j assume "j < k"
        then have "Suc j < i" using k by simp
        with i(3) have "rmatch its (drop (Suc j) (c # s)) = None" by blast
        then show "rmatch its (drop j s) = None" by simp
      qed
      with i k show ?R by auto
    next
      assume ?R
      then obtain i where i: "i \<le> length s" "rmatch its (drop i s) = Some cap"
        "\<forall>j<i. rmatch its (drop j s) = None" by blast
      have "\<forall>j<Suc i. rmatch its (drop j (c # s)) = None"
      proof (intro allI impI)
        fix j assume "j < Suc i"
        show "rmatch its (drop j (c # s)) = None"
        proof (cases j)
          case 0 with None show ?thesis by simp
        next
          case (Suc j')
          with \<open>j < Suc i\<close> i(3) show ?thesis by simp
        qed
      qed
      with i have "Suc i \<le> length (c # s) \<and> rmatch its (drop (Suc i) (c # s)) = Some cap \<and>
        (\<forall>j<Suc i. rmatch its (drop j (c # s)) = None)" by simp
      then show ?L by blast
    qed
    with None Cons.IH show ?thesis by simp
  qed
qed

lemma rsearch_None_iff:
  "rsearch its s = None \<longleftrightarrow> (\<forall>i\<le>length s. rmatch its (drop i s) = None)"
proof (induction s)
  case Nil
  then show ?case by simp
next
  case (Cons c s)
  have "(\<forall>i\<le>length (c # s). rmatch its (drop i (c # s)) = None) \<longleftrightarrow>
        rmatch its (c # s) = None \<and> (\<forall>i\<le>length s. rmatch its (drop i s) = None)"
    (is "?L \<longleftrightarrow> ?R")
  proof
    assume l: ?L
    then have "rmatch its (drop 0 (c # s)) = None" by blast
    moreover have "\<forall>i\<le>length s. rmatch its (drop i s) = None"
    proof (intro allI impI)
      fix i assume "i \<le> length s"
      then have "Suc i \<le> length (c # s)" by simp
      with l have "rmatch its (drop (Suc i) (c # s)) = None" by blast
      then show "rmatch its (drop i s) = None" by simp
    qed
    ultimately show ?R by simp
  next
    assume r: ?R
    show ?L
    proof (intro allI impI)
      fix i assume "i \<le> length (c # s)"
      with r show "rmatch its (drop i (c # s)) = None" by (cases i) auto
    qed
  qed
  with Cons.IH show ?case by (simp split: option.splits)
qed

lemma not_word_slash: "\<not> is_word (CHR ''/'')" by (simp add: is_word_def)

lemma rmatch_word_slash:
  "rmatch [Plus Word True, One (Lit (CHR ''/'')) False] s =
     (if takeWhile is_word s \<noteq> [] \<and> (\<exists>r. dropWhile is_word s = CHR ''/'' # r)
      then Some (takeWhile is_word s) else None)"
proof (induction s)
  case Nil
  then show ?case by simp
next
  case (Cons c s)
  show ?case
  proof (cases "is_word c")
    case False
    then show ?thesis by simp
  next
    case True
    show ?thesis
    proof (cases "takeWhile is_word s \<noteq> [] \<and> (\<exists>r. dropWhile is_word s = CHR ''/'' # r)")
      case True
      with \<open>is_word c\<close> Cons.IH show ?thesis by simp
    next
      case False
      with Cons.IH have none: "rmatch [Plus Word True, One (Lit (CHR ''/'')) False] s = None"
        by simp
      show ?thesis
      proof (cases s)
        case Nil
        with \<open>is_word c\<close> show ?thesis by simp
      next
        case (Cons d s')
        show ?thesis
        proof (cases "d = CHR ''/''")
          case True
          with Cons \<open>is_word c\<close> none not_word_slash show ?thesis by simp
        next
          case False
          with Cons \<open>is_word c\<close> none \<open>\<not> (takeWhile is_word s \<noteq> [] \<and> (\<exists>r. dropWhile is_word s = CHR ''/'' # r))\<close>
          show ?thesis by (auto split: if_splits)
        qed
      qed
    qed
  qed
qed

lemma dag_name_rmatch:
  "rmatch regexp_extract_dag_name s =
     (if take 7 s = ''dag_id='' \<and> takeWhile is_word (drop 7 s) \<noteq> [] \<and>
         (\<exists>r. dropWhile is_word (drop 7 s) = CHR ''/'' # r)
      then Some (takeWhile is_word (drop 7 s)) else None)"
proof -
  have n: "length ''dag_id='' = 7" by simp
  show ?thesis
    unfolding regexp_extract_dag_name_def rmatch_lits n rmatch_word_slash
    by simp
qed

lemma dag_name_rmatch_iff:
  "rmatch regexp_extract_dag_name s = Some w \<longleftrightarrow>
     w \<noteq> [] \<and> (\<forall>c\<in>set w. is_word c) \<and> (\<exists>r. s = ''dag_id='' @ w @ ''/'' @ r)"
  (is "?L \<longleftrightarrow> ?R")
proof
  assume ?L
  then have t: "take 7 s = ''dag_id=''" and w: "w = takeWhile is_word (drop 7 s)" "w \<noteq> []"
    and r: "\<exists>r. dropWhile is_word (drop 7 s) = CHR ''/'' # r"
    by (auto simp: dag_name_rmatch split: if_splits)
  from r obtain r where r': "dropWhile is_word (drop 7 s) = CHR ''/'' # r" by blast
  have "s = take 7 s @ drop 7 s" by simp
  also have "drop 7 s = takeWhile is_word (drop 7 s) @ dropWhile is_word (drop 7 s)" by simp
  finally have "s = ''dag_id='' @ w @ ''/'' @ r" using t w r' by simp
  moreover have "\<forall>c\<in>set w. is_word c" using w(1) by (auto dest: set_takeWhileD)
  ultimately show ?R using w(2) by blast
next
  assume ?R
  then obtain r where s: "s = ''dag_id='' @ w @ ''/'' @ r" and w: "w \<noteq> []" "\<forall>c\<in>set w. is_word c"
    by blast
  have d: "drop 7 s = w @ CHR ''/'' # r" and t: "take 7 s = ''dag_id=''" using s by simp_all
  have tw: "takeWhile is_word (w @ CHR ''/'' # r) = w"
    using w(2) not_word_slash by (simp add: takeWhile_tail)
  have dw: "dropWhile is_word (w @ CHR ''/'' # r) = CHR ''/'' # r"
    using w(2) not_word_slash by (simp add: dropWhile_append1 dropWhile_append2)
  show ?L using w(1) by (simp add: dag_name_rmatch d t tw dw)
qed

section \<open>Deleting\<close>

text \<open>
  C9. Called with an empty sequence, \<open>delete_expired_logs\<close> raises nothing, leaves the store
  as it was, issues no removal request, prints no line about a deleted file and prints the
  one notice that there is nothing to delete.
\<close>

theorem delete_expired_logs_empty:
  "fst (delete_expired_logs remove_object bucket [] w) = None \<and>
   store (snd (delete_expired_logs remove_object bucket [] w)) = store w \<and>
   requests (snd (delete_expired_logs remove_object bucket [] w)) = requests w \<and>
   stdout (snd (delete_expired_logs remove_object bucket [] w)) = stdout w @ [''No logfiles to delete'']"
  by (simp add: delete_expired_logs_def)

lemma delete_loop_append:
  "delete_loop rm b (xs @ ys) w =
     (case delete_loop rm b xs w of
        (None, w1) \<Rightarrow> delete_loop rm b ys w1
      | (Some e, w1) \<Rightarrow> (Some e, w1))"
  by (induction xs arbitrary: w) (simp_all add: Let_def split: sum.splits)

lemma delete_loop_done:
  "delete_loop rm b xs w = (None, w1) \<Longrightarrow>
     requests w1 = requests w @ map (\<lambda>x. (b, object_name x)) xs \<and>
     stdout w1 = stdout w @ map deleted_line xs"
proof (induction xs arbitrary: w)
  case Nil
  then show ?case by simp
next
  case (Cons x xs)
  show ?case
  proof (cases "rm (store w) b (object_name x)")
    case (Inl e)
    with Cons.prems show ?thesis by (simp add: Let_def)
  next
    case (Inr st)
    with Cons.prems Cons.IH [of "w\<lparr>requests := requests w @ [(b, object_name x)], store := st,
        stdout := stdout w @ [''Deleted logfile: '' @ object_name x]\<rparr>"]
    show ?thesis by (simp add: Let_def deleted_line_def)
  qed
qed

text \<open>
  C3, as the code behaves. The claim says that after a failed removal the remaining items
  are still attempted and the failure is put into a report. The code has no handler around
  \<open>remove_object\<close> and returns nothing: with three items of which the store does not hold the
  second, the first is removed, the request for the second raises, and the third is never
  requested.
\<close>

theorem delete_expired_logs_aborts_counterexample:
  "delete_expired_logs remove_present ''logs''
     [\<lparr>bucket_name = ''logs'', object_name = ''a''\<rparr>,
      \<lparr>bucket_name = ''logs'', object_name = ''b''\<rparr>,
      \<lparr>bucket_name = ''logs'', object_name = ''c''\<rparr>]
     \<lparr>store = [''a'', ''c''], requests = [], stdout = []\<rparr> =
   (Some ObjectNotFoundError,
    \<lparr>store = [''c''], requests = [(''logs'', ''a''), (''logs'', ''b'')],
       stdout = [''Deleted logfile: a'']\<rparr>)"
  by (simp add: delete_expired_logs_def remove_present_def Let_def)

text \<open>
  C3, amended. When the removals of the items \<open>pre\<close> succeed and the removal of the next
  item \<open>f\<close> fails with \<open>e\<close>, \<open>delete_expired_logs\<close> ends with the exception \<open>e\<close>, whatever
  follows \<open>f\<close> in the input: the requests issued are those for \<open>pre\<close> and for \<open>f\<close>, in this
  order, and the lines printed are those for \<open>pre\<close>.
\<close>

theorem delete_expired_logs_stops_at_failure:
  assumes "delete_loop rm b pre w = (None, w1)"
    and "rm (store w1) b (object_name f) = Inl e"
  shows "delete_expired_logs rm b (pre @ f # post) w =
           (Some e, w1\<lparr>requests := requests w1 @ [(b, object_name f)]\<rparr>) \<and>
         requests w1 = requests w @ map (\<lambda>x. (b, object_name x)) pre \<and>
         stdout w1 = stdout w @ map deleted_line pre"
proof -
  have "delete_loop rm b (pre @ f # post) w = delete_loop rm b (f # post) w1"
    using assms(1) by (simp add: delete_loop_append)
  also have "\<dots> = (Some e, w1\<lparr>requests := requests w1 @ [(b, object_name f)]\<rparr>)"
    using assms(2) by (simp add: Let_def)
  finally show ?thesis
    using delete_loop_done [OF assms(1)] by (simp add: delete_expired_logs_def)
qed

theorem delete_expired_logs_stops_at_failure_witness:
  "delete_expired_logs remove_present ''logs''
     ([\<lparr>bucket_name = ''logs'', object_name = ''a''\<rparr>] @
      \<lparr>bucket_name = ''logs'', object_name = ''b''\<rparr> #
      [\<lparr>bucket_name = ''logs'', object_name = ''c''\<rparr>])
     \<lparr>store = [''a'', ''c''], requests = [], stdout = []\<rparr> =
   (Some ObjectNotFoundError,
    \<lparr>store = [''c''], requests = [(''logs'', ''a''), (''logs'', ''b'')],
       stdout = [''Deleted logfile: a'']\<rparr>)"
proof -
  have 1: "delete_loop remove_present ''logs'' [\<lparr>bucket_name = ''logs'', object_name = ''a''\<rparr>]
      \<lparr>store = [''a'', ''c''], requests = [], stdout = []\<rparr> =
      (None, \<lparr>store = [''c''], requests = [(''logs'', ''a'')], stdout = [''Deleted logfile: a'']\<rparr>)"
    by (simp add: remove_present_def Let_def)
  have 2: "remove_present (store \<lparr>store = [''c''], requests = [(''logs'', ''a'')], stdout = [''Deleted logfile: a'']\<rparr>)
      ''logs'' (object_name \<lparr>bucket_name = ''logs'', object_name = ''b''\<rparr>) = Inl ObjectNotFoundError"
    by (simp add: remove_present_def)
  show ?thesis
    using delete_expired_logs_stops_at_failure
      [OF 1 2, of "[\<lparr>bucket_name = ''logs'', object_name = ''c''\<rparr>]"]
    by simp
qed

section \<open>Selecting\<close>

lemma choose_loop_dated:
  "\<forall>f\<in>set xs. has_date f \<Longrightarrow> choose_loop dl xs acc = Inr (acc @ filter (is_expired dl) xs)"
proof (induction xs arbitrary: acc)
  case Nil
  then show ?case by simp
next
  case (Cons x xs)
  from Cons.prems obtain d where d: "extract_dagrun_dt_from_path (object_name x) = Inr (Some d)"
    by (auto simp: has_date_def split: sum.splits option.splits)
  from Cons.prems have "\<forall>f\<in>set xs. has_date f" by simp
  then show ?case using d Cons.IH by (simp add: is_expired_def)
qed

lemma choose_loop_Inr:
  "choose_loop dl xs acc = Inr ys \<Longrightarrow> \<forall>f\<in>set xs. has_date f"
proof (induction xs arbitrary: acc)
  case Nil
  then show ?case by simp
next
  case (Cons x xs)
  from Cons.prems obtain d where d: "extract_dagrun_dt_from_path (object_name x) = Inr (Some d)"
    by (auto split: sum.splits option.splits)
  then have x: "has_date x" by (simp add: has_date_def)
  from Cons.prems d have "\<exists>acc'. choose_loop dl xs acc' = Inr ys"
    by (auto split: if_splits)
  then have "\<forall>f\<in>set xs. has_date f" using Cons.IH by blast
  with x show ?case by simp
qed

text \<open>
  C8. Whenever \<open>choose_expired_logs\<close> returns a list, the same call on that list (same clock
  reading, same \<open>ttl_days\<close>) returns it unchanged.
\<close>

theorem choose_expired_logs_idempotent:
  assumes "choose_expired_logs now_dt log_files ttl = Inr out"
  shows "choose_expired_logs now_dt out ttl = Inr out"
proof -
  from assms obtain delta dl where td: "timedelta ttl = Inr delta"
    and ds: "date_sub now_dt delta = Inr dl"
    and loop: "choose_loop dl log_files [] = Inr out"
    by (auto simp: choose_expired_logs_def split: sum.splits)
  have dated: "\<forall>f\<in>set log_files. has_date f" using loop by (rule choose_loop_Inr)
  then have out: "out = filter (is_expired dl) log_files"
    using loop by (simp add: choose_loop_dated)
  have "\<forall>f\<in>set out. has_date f" using dated out by simp
  then have "choose_loop dl out [] = Inr (filter (is_expired dl) out)"
    by (simp add: choose_loop_dated)
  also have "filter (is_expired dl) out = out" using out by simp
  finally show ?thesis using td ds by (simp add: choose_expired_logs_def)
qed

theorem choose_expired_logs_idempotent_witness:
  "choose_expired_logs \<lparr>year = 2024, month = 6, day = 10\<rparr>
     [\<lparr>bucket_name = ''logs'', object_name = ''a/dag_id=x/run_id=m__2024-01-01/f.log''\<rparr>] 100
   = Inr [\<lparr>bucket_name = ''logs'', object_name = ''a/dag_id=x/run_id=m__2024-01-01/f.log''\<rparr>]"
proof -
  have "choose_expired_logs \<lparr>year = 2024, month = 6, day = 10\<rparr>
     [\<lparr>bucket_name = ''logs'', object_name = ''a/dag_id=x/run_id=m__2024-01-01/f.log''\<rparr>,
      \<lparr>bucket_name = ''logs'', object_name = ''a/dag_id=y/run_id=n__2024-06-01/f.log''\<rparr>] 100
   = Inr [\<lparr>bucket_name = ''logs'', object_name = ''a/dag_id=x/run_id=m__2024-01-01/f.log''\<rparr>]"
    by (simp add: choose_expired_logs_def date_defs parse_defs Let_def)
  then show ?thesis by (rule choose_expired_logs_idempotent)
qed

text \<open>
  C1, at a failing input. The path of the object below has no \<open>run_id=\<close> segment, so
  \<open>_extract_dagrun_dt_from_path\<close> returns \<open>None\<close>; \<open>choose_expired_logs\<close> compares it with
  the deadline all the same, and the call ends with \<open>TypeError\<close>: the item is not skipped,
  and the error is not the one of a malformed date.
\<close>

theorem choose_expired_logs_absent_date_TypeError:
  "choose_expired_logs \<lparr>year = 2024, month = 6, day = 10\<rparr>
     [\<lparr>bucket_name = ''logs'', object_name = ''a/dag_id=x/f.log''\<rparr>] 0 = Inl TypeError"
  by (simp add: choose_expired_logs_def date_defs parse_defs Let_def)

section \<open>Workflow names and listing\<close>

lemma extract_dag_name_Some_iff:
  "extract_dag_name_from_path path = Some w \<longleftrightarrow>
     (\<exists>i\<le>length path. rmatch regexp_extract_dag_name (drop i path) = Some w \<and>
        (\<forall>j<i. rmatch regexp_extract_dag_name (drop j path) = None))"
  by (simp add: extract_dag_name_from_path_def rsearch_Some_iff [symmetric] split: option.splits)

lemma extract_dag_name_None_iff:
  "extract_dag_name_from_path path = None \<longleftrightarrow>
     (\<forall>i\<le>length path. rmatch regexp_extract_dag_name (drop i path) = None)"
  by (simp add: extract_dag_name_from_path_def rsearch_None_iff [symmetric] split: option.splits)

lemma extract_dag_name_nonempty: "extract_dag_name_from_path path \<noteq> Some []"
  by (auto simp: extract_dag_name_Some_iff dag_name_rmatch_iff)

lemma dag_name_occurrence:
  assumes "path = pre @ ''dag_id='' @ w @ ''/'' @ post" "w \<noteq> []" "\<forall>c\<in>set w. is_word c"
  shows "rmatch regexp_extract_dag_name (drop (length pre) path) = Some w"
  using assms by (auto simp: dag_name_rmatch_iff)

lemma dag_name_occurrence_conv:
  assumes "rmatch regexp_extract_dag_name (drop j path) = Some w"
  shows "\<exists>post. path = take j path @ ''dag_id='' @ w @ ''/'' @ post \<and> w \<noteq> [] \<and> (\<forall>c\<in>set w. is_word c)"
proof -
  from assms obtain r where "drop j path = ''dag_id='' @ w @ ''/'' @ r" and w: "w \<noteq> []" "\<forall>c\<in>set w. is_word c"
    by (auto simp: dag_name_rmatch_iff)
  then have "path = take j path @ ''dag_id='' @ w @ ''/'' @ r"
    by (metis append_take_drop_id)
  with w show ?thesis by blast
qed

lemma dag_name_match_in_range:
  assumes "rmatch regexp_extract_dag_name (drop j path) = Some w"
  shows "j < length path"
proof (rule ccontr)
  assume "\<not> j < length path"
  then have "drop j path = []" by simp
  with assms show False by (simp add: dag_name_rmatch_iff)
qed

text \<open>
  C5, amended. \<open>re.search\<close> returns the leftmost match, and \<open>\w\<close> is wider than
  \<open>[A-Za-z0-9_]\<close>. If \<open>dag_id=foo/\<close> occurs in the path, \<open>foo\<close> being a non-empty run of \<open>\w\<close>
  characters, and no occurrence of \<open>dag_id=<\w+>/\<close> starts further left, the extracted name is
  \<open>foo\<close>. If the path has no occurrence of \<open>dag_id=<\w+>/\<close> at all, the result is absent; the
  function has no error result.
\<close>

theorem extract_dag_name_leftmost:
  "(path = pre @ ''dag_id='' @ foo @ ''/'' @ post \<and> foo \<noteq> [] \<and> (\<forall>c\<in>set foo. is_word c) \<and>
    (\<forall>pre' w post'. path = pre' @ ''dag_id='' @ w @ ''/'' @ post' \<and> w \<noteq> [] \<and> (\<forall>c\<in>set w. is_word c)
        \<longrightarrow> length pre \<le> length pre')
      \<longrightarrow> extract_dag_name_from_path path = Some foo) \<and>
   ((\<forall>pre' w post'. path = pre' @ ''dag_id='' @ w @ ''/'' @ post' \<longrightarrow> w = [] \<or> (\<exists>c\<in>set w. \<not> is_word c))
      \<longrightarrow> extract_dag_name_from_path path = None)"
proof (intro conjI impI)
  assume a: "path = pre @ ''dag_id='' @ foo @ ''/'' @ post \<and> foo \<noteq> [] \<and> (\<forall>c\<in>set foo. is_word c) \<and>
    (\<forall>pre' w post'. path = pre' @ ''dag_id='' @ w @ ''/'' @ post' \<and> w \<noteq> [] \<and> (\<forall>c\<in>set w. is_word c)
        \<longrightarrow> length pre \<le> length pre')"
  then have here: "rmatch regexp_extract_dag_name (drop (length pre) path) = Some foo"
    using dag_name_occurrence by blast
  have before: "\<forall>j<length pre. rmatch regexp_extract_dag_name (drop j path) = None"
  proof (intro allI impI)
    fix j assume j: "j < length pre"
    show "rmatch regexp_extract_dag_name (drop j path) = None"
    proof (cases "rmatch regexp_extract_dag_name (drop j path)")
      case None
      then show ?thesis .
    next
      case (Some w)
      from dag_name_occurrence_conv [OF Some] obtain post'
        where "path = take j path @ ''dag_id='' @ w @ ''/'' @ post' \<and> w \<noteq> [] \<and> (\<forall>c\<in>set w. is_word c)"
        by blast
      with a have "length pre \<le> length (take j path)" by blast
      with j show ?thesis by simp
    qed
  qed
  have "length pre \<le> length path" using a by simp
  with here before show "extract_dag_name_from_path path = Some foo"
    unfolding extract_dag_name_Some_iff by blast
next
  assume a: "\<forall>pre' w post'. path = pre' @ ''dag_id='' @ w @ ''/'' @ post' \<longrightarrow> w = [] \<or> (\<exists>c\<in>set w. \<not> is_word c)"
  show "extract_dag_name_from_path path = None"
    unfolding extract_dag_name_None_iff
  proof (intro allI impI)
    fix i
    show "rmatch regexp_extract_dag_name (drop i path) = None"
    proof (cases "rmatch regexp_extract_dag_name (drop i path)")
      case None
      then show ?thesis .
    next
      case (Some w)
      from dag_name_occurrence_conv [OF Some] a show ?thesis by blast
    qed
  qed
qed

lemma leftmost_dag_nameI:
  assumes "\<forall>j<n. rmatch regexp_extract_dag_name (drop j path) = None"
  shows "\<forall>pre' w post'. path = pre' @ ''dag_id='' @ w @ ''/'' @ post' \<and> w \<noteq> [] \<and> (\<forall>c\<in>set w. is_word c)
        \<longrightarrow> n \<le> length pre'"
proof (intro allI impI)
  fix pre' w post'
  assume "path = pre' @ ''dag_id='' @ w @ ''/'' @ post' \<and> w \<noteq> [] \<and> (\<forall>c\<in>set w. is_word c)"
  then have "rmatch regexp_extract_dag_name (drop (length pre') path) = Some w"
    using dag_name_occurrence by blast
  with assms show "n \<le> length pre'" by (metis not_le option.distinct(1))
qed

lemma no_dag_nameI:
  assumes "rsearch regexp_extract_dag_name path = None"
  shows "\<forall>pre' w post'. path = pre' @ ''dag_id='' @ w @ ''/'' @ post' \<longrightarrow> w = [] \<or> (\<exists>c\<in>set w. \<not> is_word c)"
proof (intro allI impI)
  fix pre' w post'
  assume p: "path = pre' @ ''dag_id='' @ w @ ''/'' @ post'"
  show "w = [] \<or> (\<exists>c\<in>set w. \<not> is_word c)"
  proof (rule ccontr)
    assume "\<not> (w = [] \<or> (\<exists>c\<in>set w. \<not> is_word c))"
    with p have "rmatch regexp_extract_dag_name (drop (length pre') path) = Some w"
      using dag_name_occurrence by blast
    moreover have "length pre' \<le> length path" using p by simp
    ultimately show False using assms unfolding rsearch_None_iff by force
  qed
qed

theorem extract_dag_name_leftmost_witness:
  "extract_dag_name_from_path ''a/dag_id=foo/dag_id=bar/f.log'' = Some ''foo'' \<and>
   extract_dag_name_from_path ''a/dag_id=foo'' = None"
proof -
  have 1: "''a/dag_id=foo/dag_id=bar/f.log'' = ''a/'' @ ''dag_id='' @ ''foo'' @ ''/'' @ ''dag_id=bar/f.log''"
    by simp
  have 2: "\<forall>c\<in>set ''foo''. is_word c" by (simp add: is_word_def)
  have "\<forall>j<length ''a/''. rmatch regexp_extract_dag_name (drop j ''a/dag_id=foo/dag_id=bar/f.log'') = None"
    by (simp add: All_less_Suc regexp_extract_dag_name_def lits_def)
  then have 3: "\<forall>pre' w post'. ''a/dag_id=foo/dag_id=bar/f.log'' = pre' @ ''dag_id='' @ w @ ''/'' @ post' \<and>
      w \<noteq> [] \<and> (\<forall>c\<in>set w. is_word c) \<longrightarrow> length ''a/'' \<le> length pre'"
    by (rule leftmost_dag_nameI)
  have "rsearch regexp_extract_dag_name ''a/dag_id=foo'' = None"
    by (simp add: regexp_extract_dag_name_def lits_def is_word_def)
  then have 4: "\<forall>pre' w post'. ''a/dag_id=foo'' = pre' @ ''dag_id='' @ w @ ''/'' @ post' \<longrightarrow>
      w = [] \<or> (\<exists>c\<in>set w. \<not> is_word c)"
    by (rule no_dag_nameI)
  from extract_dag_name_leftmost [of "''a/dag_id=foo/dag_id=bar/f.log''" "''a/''" "''foo''" "''dag_id=bar/f.log''"]
    1 2 3
  have a: "extract_dag_name_from_path ''a/dag_id=foo/dag_id=bar/f.log'' = Some ''foo''"
    by blast
  from extract_dag_name_leftmost [of "''a/dag_id=foo''"] 4
  have b: "extract_dag_name_from_path ''a/dag_id=foo'' = None"
    by blast
  from a b show ?thesis by simp
qed

text \<open>
  C5, as stated, fails: the first path contains \<open>dag_id=foo/\<close> and the name extracted is
  \<open>bar\<close>, that of the occurrence further left; the second path contains no name made of
  \<open>[A-Za-z0-9_]\<close> and the result is not absent, since \<open>\w\<close> accepts the letter with code
  point 233.
\<close>

theorem extract_dag_name_counterexample:
  "extract_dag_name_from_path ''dag_id=bar/dag_id=foo/'' = Some ''bar'' \<and>
   extract_dag_name_from_path [CHR ''d'', CHR ''a'', CHR ''g'', CHR ''_'', CHR ''i'', CHR ''d'',
     CHR ''='', CHR 0xE9, CHR ''/''] = Some [CHR 0xE9]"
  by (simp add: extract_dag_name_from_path_def regexp_extract_dag_name_def lits_def is_word_def)




lemma truthy_extract_dag_name:
  "truthy (extract_dag_name_from_path p) \<longleftrightarrow> extract_dag_name_from_path p \<noteq> None"
  using extract_dag_name_nonempty [of p]
  by (cases "extract_dag_name_from_path p") (auto simp: truthy_def)

lemma py_in_iff: "py_in v names \<longleftrightarrow> (\<exists>n\<in>set names. v = Some n)"
  by (cases v) (auto simp: py_in_def)

text \<open>
  C6. Without \<open>dag_names\<close>, or with an empty list, \<open>list_log_files\<close> yields the objects of
  the listing whose path has a name, in the order of the listing; with a non-empty list it
  yields the objects whose name is an element of the list, so none without a name.
\<close>

theorem list_log_files_filter:
  "list_log_files objects None =
     filter (\<lambda>obj. extract_dag_name_from_path (object_name obj) \<noteq> None) objects \<and>
   list_log_files objects (Some []) =
     filter (\<lambda>obj. extract_dag_name_from_path (object_name obj) \<noteq> None) objects \<and>
   (names \<noteq> [] \<longrightarrow>
      list_log_files objects (Some names) =
        filter (\<lambda>obj. \<exists>n\<in>set names. extract_dag_name_from_path (object_name obj) = Some n) objects)"
  by (simp add: list_log_files_def truthy_extract_dag_name py_in_iff)

theorem list_log_files_filter_witness:
  "list_log_files
     [\<lparr>bucket_name = ''logs'', object_name = ''a/dag_id=etl_job/run_id=m__2024-01-01/f.log''\<rparr>,
      \<lparr>bucket_name = ''logs'', object_name = ''a/dag_id=other/run_id=m__2024-01-01/f.log''\<rparr>,
      \<lparr>bucket_name = ''logs'', object_name = ''a/readme.txt''\<rparr>]
     (Some [''etl_job'']) =
   [\<lparr>bucket_name = ''logs'', object_name = ''a/dag_id=etl_job/run_id=m__2024-01-01/f.log''\<rparr>]"
proof -
  have n: "[''etl_job''] \<noteq> []" by simp
  have e: "extract_dag_name_from_path ''a/dag_id=etl_job/run_id=m__2024-01-01/f.log'' = Some ''etl_job''"
    "extract_dag_name_from_path ''a/dag_id=other/run_id=m__2024-01-01/f.log'' = Some ''other''"
    "extract_dag_name_from_path ''a/readme.txt'' = None"
    by (simp_all add: extract_dag_name_from_path_def regexp_extract_dag_name_def lits_def is_word_def)
  from list_log_files_filter [of _ "[''etl_job'']"] n e show ?thesis by simp
qed

section \<open>The execution date\<close>

lemma rmatch_One_True_iff:
  "rmatch (One k True # its) t = Some cap \<longleftrightarrow>
     (\<exists>c t' cap'. t = c # t' \<and> accepts k c \<and> rmatch its t' = Some cap' \<and> cap = c # cap')"
  by (cases t) (auto split: option.splits)

lemma rmatch_One_False_iff:
  "rmatch (One k False # its) t = Some cap \<longleftrightarrow>
     (\<exists>c t'. t = c # t' \<and> accepts k c \<and> rmatch its t' = Some cap)"
  by (cases t) (auto split: option.splits)

lemma date_shaped_iff:
  "date_shaped s \<longleftrightarrow>
     (\<exists>a b c d e f g h. s = [a, b, c, d, CHR ''-'', e, f, CHR ''-'', g, h] \<and>
        is_digit a \<and> is_digit b \<and> is_digit c \<and> is_digit d \<and> is_digit e \<and> is_digit f \<and>
        is_digit g \<and> is_digit h)"
  (is "?L \<longleftrightarrow> ?R")
proof
  assume l: ?L
  then have len: "length s = 10" by (simp add: date_shaped_def)
  then obtain a b c d x e f y g h where s: "s = [a, b, c, d, x, e, f, y, g, h]"
    by (auto simp: length_Suc_conv eval_nat_numeral)
  with l show ?R by (simp add: date_shaped_def)
next
  assume ?R
  then show ?L by (auto simp: date_shaped_def)
qed

lemma rmatch_ones:
  "rmatch (map (\<lambda>k. One k True) ks) t = Some cap \<longleftrightarrow> list_all2 accepts ks cap \<and> (\<exists>r. t = cap @ r)"
proof (induction ks arbitrary: t cap)
  case Nil
  then show ?case by auto
next
  case (Cons k ks)
  show ?case
  proof
    assume "rmatch (map (\<lambda>k. One k True) (k # ks)) t = Some cap"
    then obtain c t' cap' where "t = c # t'" "accepts k c"
      "rmatch (map (\<lambda>k. One k True) ks) t' = Some cap'" "cap = c # cap'"
      by (auto simp: rmatch_One_True_iff)
    then show "list_all2 accepts (k # ks) cap \<and> (\<exists>r. t = cap @ r)"
      using Cons.IH [of t' cap'] by auto
  next
    assume a: "list_all2 accepts (k # ks) cap \<and> (\<exists>r. t = cap @ r)"
    then obtain c cap' where c: "cap = c # cap'" "accepts k c" "list_all2 accepts ks cap'"
      by (auto simp: list_all2_Cons1)
    with a obtain r where "t = c # cap' @ r" by auto
    with c show "rmatch (map (\<lambda>k. One k True) (k # ks)) t = Some cap"
      using Cons.IH [of "cap' @ r" cap'] by (auto simp: rmatch_One_True_iff)
  qed
qed

lemma date_shaped_list_all2:
  "list_all2 accepts [Digit, Digit, Digit, Digit, Lit (CHR ''-''), Digit, Digit, Lit (CHR ''-''), Digit, Digit] s
     \<longleftrightarrow> date_shaped s"
  (is "?L \<longleftrightarrow> ?R")
proof
  assume l: ?L
  from list_all2_lengthD [OF l] have "length s = 10" by simp
  then obtain a b c d x e f y g h where s: "s = [a, b, c, d, x, e, f, y, g, h]"
    by (auto simp: length_Suc_conv eval_nat_numeral)
  with l show ?R by (simp add: date_shaped_def)
next
  assume ?R
  then show ?L unfolding date_shaped_iff by auto
qed

lemma rmatch_date_items_iff:
  "rmatch date_items t = Some cap \<longleftrightarrow> date_shaped cap \<and> (\<exists>r. t = cap @ r)"
proof -
  have "date_items = map (\<lambda>k. One k True)
      [Digit, Digit, Digit, Digit, Lit (CHR ''-''), Digit, Digit, Lit (CHR ''-''), Digit, Digit]"
    by (simp add: date_items_def)
  then have "rmatch date_items t = Some cap \<longleftrightarrow>
      list_all2 accepts [Digit, Digit, Digit, Digit, Lit (CHR ''-''), Digit, Digit, Lit (CHR ''-''), Digit, Digit] cap
        \<and> (\<exists>r. t = cap @ r)"
    using rmatch_ones by metis
  then show ?thesis unfolding date_shaped_list_all2 .
qed

lemma date_shaped_hd_digit: "date_shaped s \<Longrightarrow> \<exists>c r. s = c # r \<and> is_digit c"
  unfolding date_shaped_iff by auto

lemma not_digit_underscore: "\<not> is_digit (CHR ''_'')" by (simp add: is_digit_def)

lemma rmatch_dunder_date_iff:
  "rmatch (lits ''__'' @ date_items) t = Some cap \<longleftrightarrow> date_shaped cap \<and> (\<exists>r. t = ''__'' @ cap @ r)"
proof -
  have n: "length ''__'' = 2" by simp
  show ?thesis
  proof
    assume "rmatch (lits ''__'' @ date_items) t = Some cap"
    then have t: "take 2 t = ''__''" and "rmatch date_items (drop 2 t) = Some cap"
      unfolding rmatch_lits n by (simp_all split: if_splits)
    then obtain r where "date_shaped cap" "drop 2 t = cap @ r"
      by (auto simp: rmatch_date_items_iff)
    moreover have "t = take 2 t @ drop 2 t" by simp
    ultimately show "date_shaped cap \<and> (\<exists>r. t = ''__'' @ cap @ r)"
      using t by (metis)
  next
    assume "date_shaped cap \<and> (\<exists>r. t = ''__'' @ cap @ r)"
    then show "rmatch (lits ''__'' @ date_items) t = Some cap"
      unfolding rmatch_lits n by (auto simp: rmatch_date_items_iff)
  qed
qed

lemma dunder_date_not_nondigits:
  assumes "date_shaped cap" "date_shaped cap'" "w \<noteq> []" "\<forall>c\<in>set w. \<not> is_digit c"
    and "''__'' @ cap @ r = w @ ''__'' @ cap' @ r'"
  shows False
proof -
  from assms(1) obtain d ct where cap: "cap = d # ct" "is_digit d"
    using date_shaped_hd_digit by blast
  from assms(3) obtain x wt where w: "w = x # wt" by (cases w) auto
  show False
  proof (cases wt)
    case Nil
    with assms(5) cap w not_digit_underscore show False by auto
  next
    case (Cons y wt')
    show False
    proof (cases wt')
      case Nil
      with assms(5) cap w Cons not_digit_underscore show False by auto
    next
      case (Cons z wt'')
      with assms(5) cap w \<open>wt = y # wt'\<close> have "z = d" by auto
      moreover have "z \<in> set w" using w \<open>wt = y # wt'\<close> Cons by simp
      ultimately show False using assms(4) cap(2) by blast
    qed
  qed
qed

lemma rmatch_nondigits_iff:
  "rmatch (Plus NonDigit False # lits ''__'' @ date_items) s = Some cap \<longleftrightarrow>
     date_shaped cap \<and> (\<exists>w r. s = w @ ''__'' @ cap @ r \<and> w \<noteq> [] \<and> (\<forall>c\<in>set w. \<not> is_digit c))"
proof (induction s arbitrary: cap)
  case Nil
  then show ?case by simp
next
  case (Cons c s)
  let ?P = "Plus NonDigit False # lits ''__'' @ date_items"
  show ?case
  proof
    assume m: "rmatch ?P (c # s) = Some cap"
    then have c: "\<not> is_digit c" by (simp split: if_splits)
    show "date_shaped cap \<and> (\<exists>w r. c # s = w @ ''__'' @ cap @ r \<and> w \<noteq> [] \<and> (\<forall>c\<in>set w. \<not> is_digit c))"
    proof (cases "rmatch ?P s")
      case (Some cap')
      with m c have "cap' = cap" by simp
      with Some Cons.IH [of cap] obtain w r where "date_shaped cap" "s = w @ ''__'' @ cap @ r"
        "\<forall>c\<in>set w. \<not> is_digit c" by blast
      then have "c # s = (c # w) @ ''__'' @ cap @ r \<and> c # w \<noteq> [] \<and> (\<forall>x\<in>set (c # w). \<not> is_digit x)"
        using c by simp
      with \<open>date_shaped cap\<close> show ?thesis by blast
    next
      case None
      with m c have "rmatch (lits ''__'' @ date_items) s = Some cap"
        by (simp split: option.splits)
      then obtain r where "date_shaped cap" "s = ''__'' @ cap @ r"
        unfolding rmatch_dunder_date_iff by blast
      then have "c # s = [c] @ ''__'' @ cap @ r \<and> [c] \<noteq> [] \<and> (\<forall>x\<in>set [c]. \<not> is_digit x)"
        using c by simp
      with \<open>date_shaped cap\<close> show ?thesis by blast
    qed
  next
    assume "date_shaped cap \<and> (\<exists>w r. c # s = w @ ''__'' @ cap @ r \<and> w \<noteq> [] \<and> (\<forall>c\<in>set w. \<not> is_digit c))"
    then obtain w r where sh: "date_shaped cap" and eq: "c # s = w @ ''__'' @ cap @ r"
      and w: "w \<noteq> []" "\<forall>c\<in>set w. \<not> is_digit c" by blast
    from w(1) eq obtain wt where wt: "w = c # wt" "s = wt @ ''__'' @ cap @ r"
      by (cases w) auto
    with w(2) have c: "\<not> is_digit c" and wtnd: "\<forall>c\<in>set wt. \<not> is_digit c" by simp_all
    show "rmatch ?P (c # s) = Some cap"
    proof (cases "wt = []")
      case False
      with wt(2) wtnd sh have "rmatch ?P s = Some cap"
        unfolding Cons.IH by blast
      with c show ?thesis by simp
    next
      case True
      with wt(2) have s: "s = ''__'' @ cap @ r" by simp
      with sh have R: "rmatch (lits ''__'' @ date_items) s = Some cap"
        unfolding rmatch_dunder_date_iff by blast
      have "rmatch ?P s = None"
      proof (cases "rmatch ?P s")
        case None
        then show ?thesis .
      next
        case (Some cap')
        then obtain w' r' where "date_shaped cap'" "s = w' @ ''__'' @ cap' @ r'" "w' \<noteq> []"
          "\<forall>c\<in>set w'. \<not> is_digit c"
          unfolding Cons.IH by blast
        with s sh dunder_date_not_nondigits [of cap cap' w' r r'] show ?thesis by simp
      qed
      with R c show ?thesis by simp
    qed
  qed
qed

lemma dagrun_rmatch_iff:
  "rmatch regexp_extract_dagrun_dt s = Some cap \<longleftrightarrow>
     date_shaped cap \<and>
     (\<exists>w r. s = ''run_id='' @ w @ ''__'' @ cap @ r \<and> w \<noteq> [] \<and> (\<forall>c\<in>set w. \<not> is_digit c))"
proof -
  have n: "length ''run_id='' = 7" by simp
  show ?thesis
  proof
    assume "rmatch regexp_extract_dagrun_dt s = Some cap"
    then have t: "take 7 s = ''run_id=''"
      and "rmatch (Plus NonDigit False # lits ''__'' @ date_items) (drop 7 s) = Some cap"
      unfolding regexp_extract_dagrun_dt_def rmatch_lits n by (simp_all split: if_splits)
    then obtain w r where sh: "date_shaped cap" and d: "drop 7 s = w @ ''__'' @ cap @ r"
      and w: "w \<noteq> []" "\<forall>c\<in>set w. \<not> is_digit c"
      unfolding rmatch_nondigits_iff by blast
    have "s = take 7 s @ drop 7 s" by simp
    with t d have "s = ''run_id='' @ w @ ''__'' @ cap @ r" by metis
    with sh w show "date_shaped cap \<and>
     (\<exists>w r. s = ''run_id='' @ w @ ''__'' @ cap @ r \<and> w \<noteq> [] \<and> (\<forall>c\<in>set w. \<not> is_digit c))"
      by blast
  next
    assume "date_shaped cap \<and>
     (\<exists>w r. s = ''run_id='' @ w @ ''__'' @ cap @ r \<and> w \<noteq> [] \<and> (\<forall>c\<in>set w. \<not> is_digit c))"
    then obtain w r where sh: "date_shaped cap" and s: "s = ''run_id='' @ w @ ''__'' @ cap @ r"
      and w: "w \<noteq> []" "\<forall>c\<in>set w. \<not> is_digit c" by blast
    from s have t: "take 7 s = ''run_id=''" and d: "drop 7 s = w @ ''__'' @ cap @ r" by simp_all
    from sh w have "rmatch (Plus NonDigit False # lits ''__'' @ date_items) (w @ ''__'' @ cap @ r) = Some cap"
      unfolding rmatch_nondigits_iff by blast
    then show "rmatch regexp_extract_dagrun_dt s = Some cap"
      unfolding regexp_extract_dagrun_dt_def rmatch_lits n using t d by simp
  qed
qed

lemma char_of_code: "(of_char c :: nat) = of_char d \<Longrightarrow> c = d"
  by simp

lemma is_digit_cases:
  assumes "is_digit c"
  shows "c = CHR ''0'' \<or> c = CHR ''1'' \<or> c = CHR ''2'' \<or> c = CHR ''3'' \<or> c = CHR ''4'' \<or>
         c = CHR ''5'' \<or> c = CHR ''6'' \<or> c = CHR ''7'' \<or> c = CHR ''8'' \<or> c = CHR ''9''"
proof -
  define n where "n = (of_char c :: nat)"
  from assms have "48 \<le> n" "n \<le> 57" unfolding is_digit_def n_def by simp_all
  then have "n = 48 \<or> n = 49 \<or> n = 50 \<or> n = 51 \<or> n = 52 \<or> n = 53 \<or> n = 54 \<or>
      n = 55 \<or> n = 56 \<or> n = 57"
    by arith
  then have "n = of_char (CHR ''0'') \<or> n = of_char (CHR ''1'') \<or> n = of_char (CHR ''2'') \<or>
      n = of_char (CHR ''3'') \<or> n = of_char (CHR ''4'') \<or> n = of_char (CHR ''5'') \<or>
      n = of_char (CHR ''6'') \<or> n = of_char (CHR ''7'') \<or> n = of_char (CHR ''8'') \<or>
      n = of_char (CHR ''9'')"
    by simp
  then show ?thesis
    unfolding n_def by (blast dest: char_of_code)
qed

lemma month_part:
  assumes "is_digit e" "is_digit f"
  shows "concat (map (\<lambda>(m, r1). case r1 of [] \<Rightarrow> [] | dash2 # r2 \<Rightarrow> if dash2 = CHR ''-'' then G m r2 else [])
           (month_alts (e # f # CHR ''-'' # r))) =
         (if 1 \<le> 10 * digit_val e + digit_val f \<and> 10 * digit_val e + digit_val f \<le> 12
          then G (10 * digit_val e + digit_val f) r else [])"
  using is_digit_cases [OF assms(1)] is_digit_cases [OF assms(2)]
  by (elim disjE) (simp_all add: month_alts_def in_range_def digit_val_def)

lemma day_part:
  assumes "is_digit g" "is_digit h"
  shows "(case map (\<lambda>(d, rest). (y, m, d, rest)) (day_alts [g, h]) of
            [] \<Rightarrow> Inl ValueError
          | (y, m, d, rest) # _ \<Rightarrow> if rest \<noteq> [] then Inl ValueError else new_date y m d) =
         (if 1 \<le> 10 * digit_val g + digit_val h \<and> 10 * digit_val g + digit_val h \<le> 31
          then new_date y m (10 * digit_val g + digit_val h) else Inl ValueError)"
  using is_digit_cases [OF assms(1)] is_digit_cases [OF assms(2)]
  by (elim disjE) (simp_all add: day_alts_def in_range_def digit_val_def is_digit_def)

lemma new_date_valid:
  "new_date y m d =
     (if valid_calendar_date y m d then Inr \<lparr>year = y, month = m, day = d\<rparr> else Inl ValueError)"
proof (cases "1 \<le> m \<and> m \<le> 12")
  case False
  then show ?thesis by (auto simp: new_date_def valid_calendar_date_def)
next
  case True
  then have "m = 1 \<or> m = 2 \<or> m = 3 \<or> m = 4 \<or> m = 5 \<or> m = 6 \<or> m = 7 \<or> m = 8 \<or> m = 9 \<or>
    m = 10 \<or> m = 11 \<or> m = 12" by arith
  then show ?thesis
    by (elim disjE)
      (auto simp add: new_date_def valid_calendar_date_def days_in_month_def DAYS_IN_MONTH_def
        is_leap_def MINYEAR_def MAXYEAR_def)
qed

lemma strptime_shaped:
  assumes "date_shaped s"
  shows "strptime_Ymd s =
     (if valid_calendar_date (year_of s) (month_of s) (day_of s)
      then Inr \<lparr>year = year_of s, month = month_of s, day = day_of s\<rparr>
      else Inl ValueError)"
proof -
  from assms obtain a b c d e f g h where s: "s = [a, b, c, d, CHR ''-'', e, f, CHR ''-'', g, h]"
    and dg: "is_digit a" "is_digit b" "is_digit c" "is_digit d" "is_digit e" "is_digit f"
      "is_digit g" "is_digit h"
    unfolding date_shaped_iff by blast
  let ?y = "1000 * digit_val a + 100 * digit_val b + 10 * digit_val c + digit_val d"
  let ?m = "10 * digit_val e + digit_val f"
  let ?d = "10 * digit_val g + digit_val h"
  have fm: "format_matches s =
      (if 1 \<le> ?m \<and> ?m \<le> 12 then map (\<lambda>(d, rest). (?y, ?m, d, rest)) (day_alts [g, h]) else [])"
    unfolding format_matches_def s using dg(1-4)
    by (simp only: list.case month_part [OF dg(5,6)] simp_thms if_True)
  have "strptime_Ymd s =
      (if 1 \<le> ?m \<and> ?m \<le> 12
       then (if 1 \<le> ?d \<and> ?d \<le> 31 then new_date ?y ?m ?d else Inl ValueError)
       else Inl ValueError)"
    unfolding strptime_Ymd_def fm using day_part [OF dg(7,8), of ?y ?m]
    by simp
  also have "\<dots> = new_date ?y ?m ?d"
    by (auto simp: new_date_valid valid_calendar_date_def split: if_splits)
  finally show ?thesis
    unfolding new_date_valid by (simp add: s year_of_def month_of_def day_of_def)
qed


lemma dagrun_occurrence:
  assumes "path = pre @ ''run_id='' @ w @ ''__'' @ dt @ post" "w \<noteq> []"
    "\<forall>c\<in>set w. \<not> is_digit c" "date_shaped dt"
  shows "rmatch regexp_extract_dagrun_dt (drop (length pre) path) = Some dt"
  using assms unfolding dagrun_rmatch_iff by auto

lemma dagrun_occurrence_conv:
  assumes "rmatch regexp_extract_dagrun_dt (drop j path) = Some dt"
  shows "\<exists>w post. path = take j path @ ''run_id='' @ w @ ''__'' @ dt @ post \<and> w \<noteq> [] \<and>
           (\<forall>c\<in>set w. \<not> is_digit c) \<and> date_shaped dt"
proof -
  from assms obtain w r where "drop j path = ''run_id='' @ w @ ''__'' @ dt @ r"
    and w: "w \<noteq> []" "\<forall>c\<in>set w. \<not> is_digit c" "date_shaped dt"
    unfolding dagrun_rmatch_iff by blast
  then have "path = take j path @ ''run_id='' @ w @ ''__'' @ dt @ r"
    by (metis append_take_drop_id)
  with w show ?thesis by blast
qed

lemma dagrun_search_leftmost:
  assumes "path = pre @ ''run_id='' @ w @ ''__'' @ dt @ post" "w \<noteq> []"
    "\<forall>c\<in>set w. \<not> is_digit c" "date_shaped dt"
    and left: "\<forall>pre' w' dt' post'. path = pre' @ ''run_id='' @ w' @ ''__'' @ dt' @ post' \<and> w' \<noteq> [] \<and>
        (\<forall>c\<in>set w'. \<not> is_digit c) \<and> date_shaped dt' \<longrightarrow> length pre \<le> length pre'"
  shows "rsearch regexp_extract_dagrun_dt path = Some dt"
proof -
  have here: "rmatch regexp_extract_dagrun_dt (drop (length pre) path) = Some dt"
    using assms(1-4) by (rule dagrun_occurrence)
  have before: "\<forall>j<length pre. rmatch regexp_extract_dagrun_dt (drop j path) = None"
  proof (intro allI impI)
    fix j assume j: "j < length pre"
    show "rmatch regexp_extract_dagrun_dt (drop j path) = None"
    proof (cases "rmatch regexp_extract_dagrun_dt (drop j path)")
      case None
      then show ?thesis .
    next
      case (Some dt')
      from dagrun_occurrence_conv [OF Some] obtain w' post'
        where "path = take j path @ ''run_id='' @ w' @ ''__'' @ dt' @ post' \<and> w' \<noteq> [] \<and>
           (\<forall>c\<in>set w'. \<not> is_digit c) \<and> date_shaped dt'"
        by blast
      with left have "length pre \<le> length (take j path)" by blast
      with j show ?thesis by simp
    qed
  qed
  have "length pre \<le> length path" using assms(1) by simp
  with here before show ?thesis unfolding rsearch_Some_iff by blast
qed

lemma leftmost_dagrunI:
  assumes "\<forall>j<n. rmatch regexp_extract_dagrun_dt (drop j path) = None"
  shows "\<forall>pre' w' dt' post'. path = pre' @ ''run_id='' @ w' @ ''__'' @ dt' @ post' \<and> w' \<noteq> [] \<and>
        (\<forall>c\<in>set w'. \<not> is_digit c) \<and> date_shaped dt' \<longrightarrow> n \<le> length pre'"
proof (intro allI impI)
  fix pre' w' dt' post'
  assume "path = pre' @ ''run_id='' @ w' @ ''__'' @ dt' @ post' \<and> w' \<noteq> [] \<and>
        (\<forall>c\<in>set w'. \<not> is_digit c) \<and> date_shaped dt'"
  then have "rmatch regexp_extract_dagrun_dt (drop (length pre') path) = Some dt'"
    using dagrun_occurrence by blast
  with assms show "n \<le> length pre'" by (metis not_le option.distinct(1))
qed



text \<open>
  C7. If the leftmost occurrence of the pattern in the path carries a text \<open>dddd-dd-dd\<close>
  that is not a date of the calendar, the extraction raises \<open>ValueError\<close>, the exception of
  \<open>strptime\<close> (the parse error of the specification); it does not return absent.
\<close>

theorem extract_dagrun_dt_malformed:
  assumes "path = pre @ ''run_id='' @ w @ ''__'' @ dt @ post" "w \<noteq> []"
    "\<forall>c\<in>set w. \<not> is_digit c" "date_shaped dt"
    and "\<forall>pre' w' dt' post'. path = pre' @ ''run_id='' @ w' @ ''__'' @ dt' @ post' \<and> w' \<noteq> [] \<and>
        (\<forall>c\<in>set w'. \<not> is_digit c) \<and> date_shaped dt' \<longrightarrow> length pre \<le> length pre'"
    and "\<not> valid_calendar_date (year_of dt) (month_of dt) (day_of dt)"
  shows "extract_dagrun_dt_from_path path = Inl ValueError"
proof -
  have "rsearch regexp_extract_dagrun_dt path = Some dt"
    using assms(1-5) by (rule dagrun_search_leftmost)
  with assms(4,6) show ?thesis
    by (simp add: extract_dagrun_dt_from_path_def strptime_shaped)
qed



theorem extract_dagrun_dt_malformed_witness:
  "extract_dagrun_dt_from_path ''a/run_id=m__2024-02-30/f.log'' = Inl ValueError"
proof -
  let ?p = "''a/run_id=m__2024-02-30/f.log''"
  have 1: "?p = ''a/'' @ ''run_id='' @ ''m'' @ ''__'' @ ''2024-02-30'' @ ''/f.log''" by simp
  have 2: "''m'' \<noteq> []" by simp
  have 3: "\<forall>c\<in>set ''m''. \<not> is_digit c" by (simp add: is_digit_def)
  have 4: "date_shaped ''2024-02-30''" by (simp add: date_shaped_def is_digit_def)
  have "\<forall>j<length ''a/''. rmatch regexp_extract_dagrun_dt (drop j ?p) = None"
    by (simp add: All_less_Suc regexp_extract_dagrun_dt_def lits_def)
  then have 5: "\<forall>pre' w' dt' post'. ?p = pre' @ ''run_id='' @ w' @ ''__'' @ dt' @ post' \<and> w' \<noteq> [] \<and>
        (\<forall>c\<in>set w'. \<not> is_digit c) \<and> date_shaped dt' \<longrightarrow> length ''a/'' \<le> length pre'"
    by (rule leftmost_dagrunI)
  have 6: "\<not> valid_calendar_date (year_of ''2024-02-30'') (month_of ''2024-02-30'') (day_of ''2024-02-30'')"
    by (simp add: valid_calendar_date_def year_of_def month_of_def day_of_def digit_val_def)
  show ?thesis by (rule extract_dagrun_dt_malformed [OF 1 2 3 4 5 6])
qed

section \<open>The calendar: day numbers and dates\<close>

lemma div_step:
  fixes y n :: int
  assumes "0 < n"
  shows "y div n = (y - 1) div n + (if y mod n = 0 then 1 else 0)"
proof (cases "y mod n = 0")
  case True
  then obtain q where q: "y = n * q" by (metis mod_eq_0_iff_dvd dvd_def)
  have "(y - 1) = n * (q - 1) + (n - 1)" using q by (simp add: algebra_simps)
  moreover have "0 \<le> n - 1" "n - 1 < n" using assms by simp_all
  ultimately have "(y - 1) div n = q - 1"
    by (metis int_div_pos_eq)
  moreover have "y div n = q" using q assms by simp
  ultimately show ?thesis using True by simp
next
  case False
  define r where "r = y mod n"
  define q where "q = y div n"
  have "0 \<le> r" "r < n" using assms unfolding r_def by simp_all
  with False have r: "0 < r" "r < n" unfolding r_def by simp_all
  have "y = n * q + r" unfolding q_def r_def by simp
  then have "y - 1 = n * q + (r - 1)" by simp
  moreover have "0 \<le> r - 1" "r - 1 < n" using r by simp_all
  ultimately have "(y - 1) div n = q" by (metis int_div_pos_eq)
  then show ?thesis using False unfolding q_def by simp
qed


lemma dby_step:
  "days_before_year (y + 1) = days_before_year y + 365 + (if is_leap y then 1 else 0)"
proof -
  have 4: "y div 4 = (y - 1) div 4 + (if y mod 4 = 0 then 1 else 0)" by (rule div_step) simp
  have 100: "y div 100 = (y - 1) div 100 + (if y mod 100 = 0 then 1 else 0)" by (rule div_step) simp
  have 400: "y div 400 = (y - 1) div 400 + (if y mod 400 = 0 then 1 else 0)" by (rule div_step) simp
  have a: "y mod 4 = 0" if "y mod 100 = 0"
  proof -
    have "y mod 100 mod 4 = y mod 4" by (rule mod_mod_cancel) simp
    with that show ?thesis by simp
  qed
  have b: "y mod 100 = 0" if "y mod 400 = 0"
  proof -
    have "y mod 400 mod 100 = y mod 100" by (rule mod_mod_cancel) simp
    with that show ?thesis by simp
  qed
  have "days_before_year (y + 1) = y * 365 + y div 4 - y div 100 + y div 400"
    by (simp add: days_before_year_def)
  also have "\<dots> = days_before_year y + 365 +
      ((if y mod 4 = 0 then 1 else 0) - (if y mod 100 = 0 then 1 else 0) + (if y mod 400 = 0 then 1 else 0))"
    unfolding days_before_year_def Let_def
    by (subst 4, subst 100, subst 400) (simp add: algebra_simps)
  also have "(if y mod 4 = 0 then 1 else 0) - (if y mod 100 = 0 then 1 else 0) + (if y mod 400 = 0 then 1 else 0)
      = (if is_leap y then 1 else (0::int))"
    using a b unfolding is_leap_def
    by (cases "y mod 4 = 0"; cases "y mod 100 = 0"; cases "y mod 400 = 0") simp_all
  finally show ?thesis .
qed

lemma month_cases:
  fixes m :: int
  assumes "1 \<le> m" "m \<le> 12"
  shows "m = 1 \<or> m = 2 \<or> m = 3 \<or> m = 4 \<or> m = 5 \<or> m = 6 \<or> m = 7 \<or> m = 8 \<or> m = 9 \<or>
    m = 10 \<or> m = 11 \<or> m = 12"
  using assms by arith

lemma valid_calendar_date_iff:
  "valid_calendar_date y m d \<longleftrightarrow>
     1 \<le> y \<and> y \<le> 9999 \<and> 1 \<le> m \<and> m \<le> 12 \<and> 1 \<le> d \<and> d \<le> days_in_month y m"
proof (cases "1 \<le> m \<and> m \<le> 12")
  case False
  then show ?thesis by (auto simp: valid_calendar_date_def)
next
  case True
  then have "m = 1 \<or> m = 2 \<or> m = 3 \<or> m = 4 \<or> m = 5 \<or> m = 6 \<or> m = 7 \<or> m = 8 \<or> m = 9 \<or>
    m = 10 \<or> m = 11 \<or> m = 12" by (simp add: month_cases)
  then show ?thesis
    by (elim disjE)
      (auto simp add: valid_calendar_date_def days_in_month_def DAYS_IN_MONTH_def is_leap_def)
qed

lemma dby_mono_nat: "days_before_year y \<le> days_before_year (y + int k)"
proof (induction k)
  case 0
  then show ?case by simp
next
  case (Suc k)
  have "days_before_year (y + int k) \<le> days_before_year (y + int k + 1)"
    unfolding dby_step by simp
  moreover have "y + int (Suc k) = y + int k + 1" by simp
  ultimately show ?case using Suc by (metis order_trans)
qed

lemma dby_mono: "y \<le> y' \<Longrightarrow> days_before_year y \<le> days_before_year y'"
  using dby_mono_nat [of y "nat (y' - y)"] by simp

lemma day_of_year_bounds:
  assumes "1 \<le> m" "m \<le> 12" "1 \<le> d" "d \<le> days_in_month y m"
  shows "1 \<le> days_before_month y m + d"
    and "days_before_month y m + d \<le> 365 + (if is_leap y then 1 else 0)"
  using month_cases [OF assms(1,2)] assms(3,4)
  by (auto simp: days_before_month_def days_in_month_def DAYS_BEFORE_MONTH_def DAYS_IN_MONTH_def
      split: if_splits)

lemma dbm_next:
  assumes "1 \<le> m" "m < m'" "m' \<le> 12"
  shows "days_before_month y m + days_in_month y m \<le> days_before_month y m'"
proof -
  have m: "m = 1 \<or> m = 2 \<or> m = 3 \<or> m = 4 \<or> m = 5 \<or> m = 6 \<or> m = 7 \<or> m = 8 \<or> m = 9 \<or>
    m = 10 \<or> m = 11 \<or> m = 12" using assms by (intro month_cases) simp_all
  have m': "m' = 1 \<or> m' = 2 \<or> m' = 3 \<or> m' = 4 \<or> m' = 5 \<or> m' = 6 \<or> m' = 7 \<or> m' = 8 \<or> m' = 9 \<or>
    m' = 10 \<or> m' = 11 \<or> m' = 12" using assms by (intro month_cases) simp_all
  from m' show ?thesis
  proof (elim disjE)
  qed (use m assms(2) in \<open>auto simp: days_before_month_def days_in_month_def DAYS_BEFORE_MONTH_def
      DAYS_IN_MONTH_def\<close>)
qed

lemma ymd2ord_bounds:
  assumes "valid_calendar_date y m d"
  shows "days_before_year y < ymd2ord y m d" and "ymd2ord y m d \<le> days_before_year (y + 1)"
    and "1 \<le> ymd2ord y m d" and "ymd2ord y m d \<le> MAXORDINAL"
proof -
  from assms have v: "1 \<le> y" "y \<le> 9999" "1 \<le> m" "m \<le> 12" "1 \<le> d" "d \<le> days_in_month y m"
    unfolding valid_calendar_date_iff by simp_all
  from day_of_year_bounds [OF v(3-6)]
  show 1: "days_before_year y < ymd2ord y m d" and 2: "ymd2ord y m d \<le> days_before_year (y + 1)"
    unfolding ymd2ord_def dby_step by simp_all
  have "days_before_year 1 \<le> days_before_year y" using v(1) by (rule dby_mono)
  moreover have "days_before_year 1 = 0" by (simp add: days_before_year_def)
  ultimately show "1 \<le> ymd2ord y m d" using 1 by simp
  have "days_before_year (y + 1) \<le> days_before_year 10000" using v(2) by (intro dby_mono) simp
  moreover have "days_before_year 10000 = MAXORDINAL"
    by (simp add: days_before_year_def MAXORDINAL_def)
  ultimately show "ymd2ord y m d \<le> MAXORDINAL" using 2 by simp
qed

lemma toordinal_mono:
  assumes "valid_date a" "valid_date b" "date_lt a b"
  shows "toordinal a < toordinal b"
proof -
  from assms(1) have va: "1 \<le> month a" "month a \<le> 12" "1 \<le> day a"
    "day a \<le> days_in_month (year a) (month a)"
    unfolding valid_date_def valid_calendar_date_iff by simp_all
  from assms(2) have vb: "1 \<le> month b" "month b \<le> 12" "1 \<le> day b"
    "day b \<le> days_in_month (year b) (month b)"
    unfolding valid_date_def valid_calendar_date_iff by simp_all
  consider (y) "year a < year b"
    | (m) "year a = year b" "month a < month b"
    | (d) "year a = year b" "month a = month b" "day a < day b"
    using assms(3) unfolding date_lt_def by blast
  then show ?thesis
  proof cases
    case y
    have "toordinal a \<le> days_before_year (year a + 1)"
      using assms(1) unfolding valid_date_def toordinal_def by (rule ymd2ord_bounds(2))
    also have "\<dots> \<le> days_before_year (year b)" using y by (intro dby_mono) simp
    also have "\<dots> < toordinal b"
      using assms(2) unfolding valid_date_def toordinal_def by (rule ymd2ord_bounds(1))
    finally show ?thesis .
  next
    case m
    from dbm_next [OF va(1) m(2) vb(2), of "year a"] va(4) vb(3) m(1)
    show ?thesis unfolding toordinal_def ymd2ord_def by simp
  next
    case d
    then show ?thesis unfolding toordinal_def ymd2ord_def by simp
  qed
qed

lemma date_lt_trichotomy:
  "date_lt a b \<or> date_lt b a \<or> (year a = year b \<and> month a = month b \<and> day a = day b)"
  unfolding date_lt_def by auto

lemma date_lt_iff_toordinal:
  assumes "valid_date a" "valid_date b"
  shows "date_lt a b \<longleftrightarrow> toordinal a < toordinal b"
proof
  assume "date_lt a b"
  with assms show "toordinal a < toordinal b" by (rule toordinal_mono)
next
  assume lt: "toordinal a < toordinal b"
  show "date_lt a b"
  proof (rule ccontr)
    assume n: "\<not> date_lt a b"
    from date_lt_trichotomy [of a b] n
    consider "date_lt b a" | "year a = year b \<and> month a = month b \<and> day a = day b" by blast
    then show False
    proof cases
      case 1
      with assms have "toordinal b < toordinal a" by (intro toordinal_mono)
      with lt show False by simp
    next
      case 2
      then have "toordinal a = toordinal b" by (simp add: toordinal_def)
      with lt show False by simp
    qed
  qed
qed

lemma toordinal_inj:
  fixes a b :: date
  assumes "valid_date a" "valid_date b" "toordinal a = toordinal b"
  shows "a = b"
proof -
  have "\<not> date_lt a b" "\<not> date_lt b a"
    using assms toordinal_mono [of a b] toordinal_mono [of b a] by auto
  with date_lt_trichotomy [of a b]
  have "year a = year b \<and> month a = month b \<and> day a = day b" by blast
  then show ?thesis by simp
qed

lemma ord2ymd_eq:
  "ord2ymd k =
     (if (k - 1) mod 146097 mod 36524 mod 1461 div 365 = 4 \<or> (k - 1) mod 146097 div 36524 = 4
      then \<lparr>year = (k - 1) div 146097 * 400 + 1 +
               ((k - 1) mod 146097 div 36524 * 100 + (k - 1) mod 146097 mod 36524 div 1461 * 4 +
                (k - 1) mod 146097 mod 36524 mod 1461 div 365) - 1,
             month = 12, day = 31\<rparr>
      else month_day
             ((k - 1) div 146097 * 400 + 1 +
               ((k - 1) mod 146097 div 36524 * 100 + (k - 1) mod 146097 mod 36524 div 1461 * 4 +
                (k - 1) mod 146097 mod 36524 mod 1461 div 365))
             ((k - 1) mod 146097 mod 36524 mod 1461 div 365 = 3 \<and>
                ((k - 1) mod 146097 mod 36524 div 1461 \<noteq> 24 \<or> (k - 1) mod 146097 div 36524 = 3))
             ((k - 1) mod 146097 mod 36524 mod 1461 mod 365))"
  unfolding ord2ymd_def month_day_def Let_def DI400Y_def DI100Y_def DI4Y_def
  by (rule refl)

lemma month_day_correct:
  assumes "0 \<le> n" "n < 365" "L = is_leap y"
  shows "year (month_day y L n) = y"
    and "1 \<le> month (month_day y L n)" and "month (month_day y L n) \<le> 12"
    and "1 \<le> day (month_day y L n)"
    and "day (month_day y L n) \<le> days_in_month y (month (month_day y L n))"
    and "days_before_month y (month (month_day y L n)) + day (month_day y L n) = n + 1"
proof -
  define mo where "mo = (n + 50) div 32"
  have lo: "32 * mo \<le> n + 50" and hi: "n + 50 < 32 * mo + 32"
    unfolding mo_def by presburger+
  with assms have "1 \<le> mo" "mo \<le> 12" by simp_all
  then have cases: "mo = 1 \<or> mo = 2 \<or> mo = 3 \<or> mo = 4 \<or> mo = 5 \<or> mo = 6 \<or> mo = 7 \<or> mo = 8 \<or>
    mo = 9 \<or> mo = 10 \<or> mo = 11 \<or> mo = 12" by (rule month_cases)
  have all: "year (month_day y L n) = y \<and>
    1 \<le> month (month_day y L n) \<and> month (month_day y L n) \<le> 12 \<and>
    1 \<le> day (month_day y L n) \<and>
    day (month_day y L n) \<le> days_in_month y (month (month_day y L n)) \<and>
    days_before_month y (month (month_day y L n)) + day (month_day y L n) = n + 1"
    using cases
  proof (elim disjE)
  qed (use lo hi assms in \<open>auto simp: month_day_def Let_def mo_def [symmetric] days_in_month_def
      days_before_month_def DAYS_BEFORE_MONTH_def DAYS_IN_MONTH_def\<close>)
  from all show "year (month_day y L n) = y"
    and "1 \<le> month (month_day y L n)" and "month (month_day y L n) \<le> 12"
    and "1 \<le> day (month_day y L n)"
    and "day (month_day y L n) \<le> days_in_month y (month (month_day y L n))"
    and "days_before_month y (month (month_day y L n)) + day (month_day y L n) = n + 1"
    by simp_all
qed

lemma dby_decomp:
  assumes "0 \<le> b" "b < 4" "0 \<le> c" "c < 25" "0 \<le> e" "e < 4"
  shows "days_before_year (400 * a + 100 * b + 4 * c + e + 1) =
           146097 * a + 36524 * b + 1461 * c + 365 * e"
proof -
  let ?Y = "400 * a + 100 * b + 4 * c + e"
  have d4: "?Y div 4 = 100 * a + 25 * b + c"
    by (rule int_div_pos_eq [where r = e]) (use assms in simp_all)
  have d100: "?Y div 100 = 4 * a + b"
    by (rule int_div_pos_eq [where r = "4 * c + e"]) (use assms in simp_all)
  have d400: "?Y div 400 = a"
    by (rule int_div_pos_eq [where r = "100 * b + 4 * c + e"]) (use assms in simp_all)
  show ?thesis
    unfolding days_before_year_def Let_def
    by (simp add: d4 d100 d400)
qed

lemma year_le_9999:
  assumes "days_before_year y < MAXORDINAL"
  shows "y \<le> 9999"
proof (rule ccontr)
  assume "\<not> y \<le> 9999"
  then have "days_before_year 10000 \<le> days_before_year y" by (intro dby_mono) simp
  moreover have "days_before_year 10000 = MAXORDINAL"
    by (simp add: days_before_year_def MAXORDINAL_def)
  ultimately show False using assms by simp
qed

lemma mod_zero_range:
  fixes x n :: int
  assumes "1 \<le> x" "x \<le> n"
  shows "x mod n = 0 \<longleftrightarrow> x = n"
proof (cases "x = n")
  case True
  then show ?thesis by simp
next
  case False
  with assms have "0 \<le> x" "x < n" by simp_all
  then have "x mod n = x" by (rule mod_pos_pos_trivial)
  with assms(1) False show ?thesis by simp
qed

lemma four_c_plus_e_99:
  fixes c e :: int
  assumes "0 \<le> e" "e < 4" "4 * c + e = 99"
  shows "c = 24 \<and> e = 3"
proof -
  have "e = 0 \<or> e = 1 \<or> e = 2 \<or> e = 3" using assms(1,2) by arith
  then show ?thesis
  proof (elim disjE)
    assume "e = 0" with assms(3) have "4 * c = 99" by simp
    then show ?thesis by presburger
  next
    assume "e = 1" with assms(3) have "4 * c = 98" by simp
    then show ?thesis by presburger
  next
    assume "e = 2" with assms(3) have "4 * c = 97" by simp
    then show ?thesis by presburger
  next
    assume "e = 3" with assms(3) show ?thesis by simp
  qed
qed

lemma is_leap_decomp:
  assumes "0 \<le> b" "b < 4" "0 \<le> c" "c < 25" "0 \<le> e" "e < 4"
  shows "is_leap (400 * a + 100 * b + 4 * c + e + 1) \<longleftrightarrow> e = 3 \<and> (c \<noteq> 24 \<or> b = 3)"
proof -
  let ?Y = "400 * a + 100 * b + 4 * c + e + 1"
  have e4: "?Y = (e + 1) + 4 * (100 * a + 25 * b + c)" by simp
  have m4: "?Y mod 4 = (e + 1) mod 4"
    unfolding e4 by (rule mod_mult_self2)
  have e100: "?Y = (4 * c + e + 1) + 100 * (4 * a + b)" by simp
  have m100: "?Y mod 100 = (4 * c + e + 1) mod 100"
    unfolding e100 by (rule mod_mult_self2)
  have e400: "?Y = (100 * b + 4 * c + e + 1) + 400 * a" by simp
  have m400: "?Y mod 400 = (100 * b + 4 * c + e + 1) mod 400"
    unfolding e400 by (rule mod_mult_self2)
  have z4: "(e + 1) mod 4 = 0 \<longleftrightarrow> e = 3"
  proof -
    have "(e + 1) mod 4 = 0 \<longleftrightarrow> e + 1 = 4"
      by (rule mod_zero_range) (use assms in simp_all)
    then show ?thesis by auto
  qed
  have z100: "(4 * c + e + 1) mod 100 = 0 \<longleftrightarrow> c = 24 \<and> e = 3"
  proof -
    have "(4 * c + e + 1) mod 100 = 0 \<longleftrightarrow> 4 * c + e + 1 = 100"
      by (rule mod_zero_range) (use assms in simp_all)
    also have "\<dots> \<longleftrightarrow> c = 24 \<and> e = 3"
    proof
      assume "4 * c + e + 1 = 100"
      then have "4 * c + e = 99" by simp
      with assms(5,6) show "c = 24 \<and> e = 3" by (rule four_c_plus_e_99)
    next
      assume "c = 24 \<and> e = 3"
      then show "4 * c + e + 1 = 100" by simp
    qed
    finally show ?thesis .
  qed
  have z400: "(100 * b + 4 * c + e + 1) mod 400 = 0 \<longleftrightarrow> b = 3 \<and> c = 24 \<and> e = 3"
  proof -
    have "(100 * b + 4 * c + e + 1) mod 400 = 0 \<longleftrightarrow> 100 * b + 4 * c + e + 1 = 400"
      by (rule mod_zero_range) (use assms in simp_all)
    also have "\<dots> \<longleftrightarrow> b = 3 \<and> c = 24 \<and> e = 3"
    proof
      assume h: "100 * b + 4 * c + e + 1 = 400"
      with assms have "b = 3" by simp
      with h have "4 * c + e = 99" by simp
      with assms(5,6) have "c = 24 \<and> e = 3" by (rule four_c_plus_e_99)
      with \<open>b = 3\<close> show "b = 3 \<and> c = 24 \<and> e = 3" by simp
    next
      assume "b = 3 \<and> c = 24 \<and> e = 3"
      then show "100 * b + 4 * c + e + 1 = 400" by simp
    qed
    finally show ?thesis .
  qed
  show ?thesis unfolding is_leap_def m4 m100 m400 z4 z100 z400 by blast
qed

lemma ord2ymd_correct:
  assumes "1 \<le> k" "k \<le> MAXORDINAL"
  shows "valid_date (ord2ymd k) \<and> toordinal (ord2ymd k) = k"
proof -
  define a where "a = (k - 1) div 146097"
  define r where "r = (k - 1) mod 146097"
  define b where "b = r div 36524"
  define r2 where "r2 = r mod 36524"
  define c where "c = r2 div 1461"
  define r3 where "r3 = r2 mod 1461"
  define e where "e = r3 div 365"
  define r4 where "r4 = r3 mod 365"
  have k: "k - 1 = 146097 * a + r" unfolding a_def r_def by simp
  have r: "0 \<le> r" "r < 146097" unfolding r_def by simp_all
  have rr: "r = 36524 * b + r2" unfolding b_def r2_def by simp
  have r2: "0 \<le> r2" "r2 < 36524" unfolding r2_def by simp_all
  have rr2: "r2 = 1461 * c + r3" unfolding c_def r3_def by simp
  have r3: "0 \<le> r3" "r3 < 1461" unfolding r3_def by simp_all
  have rr3: "r3 = 365 * e + r4" unfolding e_def r4_def by simp
  have r4: "0 \<le> r4" "r4 < 365" unfolding r4_def by simp_all
  have a0: "0 \<le> a" unfolding a_def using assms(1) by (simp add: pos_imp_zdiv_nonneg_iff)
  have b0: "0 \<le> b" unfolding b_def using r(1) by (simp add: pos_imp_zdiv_nonneg_iff)
  have c0: "0 \<le> c" unfolding c_def using r2(1) by (simp add: pos_imp_zdiv_nonneg_iff)
  have e0: "0 \<le> e" unfolding e_def using r3(1) by (simp add: pos_imp_zdiv_nonneg_iff)
  have b_le: "b \<le> 4" using r rr r2 by simp
  have c_le: "c \<le> 24" using r2 rr2 r3 by simp
  have e_le: "e \<le> 4" using r3 rr3 r4 by simp
  have ord: "ord2ymd k =
     (if e = 4 \<or> b = 4
      then \<lparr>year = a * 400 + 1 + (b * 100 + c * 4 + e) - 1, month = 12, day = 31\<rparr>
      else month_day (a * 400 + 1 + (b * 100 + c * 4 + e)) (e = 3 \<and> (c \<noteq> 24 \<or> b = 3)) r4)"
    unfolding ord2ymd_eq a_def r_def b_def r2_def c_def r3_def e_def r4_def by (rule refl)
  consider (b4) "b = 4" | (e4) "b < 4" "e = 4" | (gen) "b < 4" "e < 4"
    using b_le e_le by linarith
  then show ?thesis
  proof cases
    case b4
    with r rr r2 have "r2 = 0" by simp
    then have "c = 0" "r3 = 0" unfolding c_def r3_def by simp_all
    then have "e = 0" "r4 = 0" unfolding e_def r4_def by simp_all
    have kk: "k = 146097 * a + 146097" using k rr b4 \<open>r2 = 0\<close> by simp
    have o: "ord2ymd k = \<lparr>year = 400 * a + 400, month = 12, day = 31\<rparr>"
      unfolding ord using b4 \<open>c = 0\<close> \<open>e = 0\<close> by simp
    have y: "400 * a + 400 = 400 * a + 100 * 3 + 4 * 24 + 3 + 1" by simp
    have dby: "days_before_year (400 * a + 400) = 146097 * a + 145731"
      unfolding y by (subst dby_decomp) simp_all
    have leap: "is_leap (400 * a + 400)"
      unfolding y by (subst is_leap_decomp) simp_all
    have tord: "toordinal (ord2ymd k) = k"
      unfolding o toordinal_def ymd2ord_def
      using dby leap kk by (simp add: days_before_month_def DAYS_BEFORE_MONTH_def)
    have "days_before_year (400 * a + 400) < MAXORDINAL"
      using dby kk assms(2) by simp
    then have "400 * a + 400 \<le> 9999" by (rule year_le_9999)
    then have "valid_date (ord2ymd k)"
      unfolding o valid_date_def valid_calendar_date_def using a0 by simp
    with tord show ?thesis by simp
  next
    case e4
    with r3 rr3 r4 have "r4 = 0" by simp
    with rr3 e4 have r3v: "r3 = 1460" by simp
    with r2 rr2 have c23: "c < 24" by simp
    have kk: "k = 146097 * a + 36524 * b + 1461 * c + 1461" using k rr rr2 r3v by simp
    have o: "ord2ymd k = \<lparr>year = 400 * a + 100 * b + 4 * c + 3 + 1, month = 12, day = 31\<rparr>"
      unfolding ord using e4 by simp
    have dby: "days_before_year (400 * a + 100 * b + 4 * c + 3 + 1) =
        146097 * a + 36524 * b + 1461 * c + 365 * 3"
      by (rule dby_decomp) (use b0 e4 c0 c23 in simp_all)
    have leap: "is_leap (400 * a + 100 * b + 4 * c + 3 + 1)"
      by (subst is_leap_decomp) (use b0 e4 c0 c23 in simp_all)
    have tord: "toordinal (ord2ymd k) = k"
      unfolding o toordinal_def ymd2ord_def
      using dby leap kk by (simp add: days_before_month_def DAYS_BEFORE_MONTH_def)
    have "days_before_year (400 * a + 100 * b + 4 * c + 3 + 1) < MAXORDINAL"
      using dby kk assms(2) by simp
    then have "400 * a + 100 * b + 4 * c + 3 + 1 \<le> 9999" by (rule year_le_9999)
    then have "valid_date (ord2ymd k)"
      unfolding o valid_date_def valid_calendar_date_def using a0 b0 c0 by simp
    with tord show ?thesis by simp
  next
    case gen
    let ?Y = "400 * a + 100 * b + 4 * c + e + 1"
    let ?L = "e = 3 \<and> (c \<noteq> 24 \<or> b = 3)"
    have c25: "c < 25" using c_le by simp
    have o: "ord2ymd k = month_day ?Y ?L r4"
      unfolding ord using gen by (simp add: algebra_simps)
    have L: "?L = is_leap ?Y"
      by (rule is_leap_decomp [symmetric]) (use b0 gen c0 c25 e0 in simp_all)
    have dby: "days_before_year ?Y = 146097 * a + 36524 * b + 1461 * c + 365 * e"
      by (rule dby_decomp) (use b0 gen c0 c25 e0 in simp_all)
    note md = month_day_correct [OF r4 L]
    have kk: "k = 146097 * a + 36524 * b + 1461 * c + 365 * e + r4 + 1"
      using k rr rr2 rr3 by simp
    have tord: "toordinal (ord2ymd k) = k"
      unfolding o toordinal_def ymd2ord_def md(1) using md(6) dby kk by simp
    have "days_before_year ?Y < MAXORDINAL"
      using dby kk assms(2) r4 by simp
    then have "?Y \<le> 9999" by (rule year_le_9999)
    moreover have "1 \<le> ?Y" using a0 b0 c0 e0 by simp
    ultimately have "valid_date (ord2ymd k)"
      unfolding o valid_date_def valid_calendar_date_iff md(1) using md(2-5) by simp
    with tord show ?thesis by simp
  qed
qed

lemma ord2ymd_toordinal:
  assumes "valid_date dt"
  shows "ord2ymd (toordinal dt) = dt"
proof -
  from assms have b: "1 \<le> toordinal dt" "toordinal dt \<le> MAXORDINAL"
    unfolding valid_date_def toordinal_def by (rule ymd2ord_bounds(3), rule ymd2ord_bounds(4))
  from ord2ymd_correct [OF b]
  have "valid_date (ord2ymd (toordinal dt))" "toordinal (ord2ymd (toordinal dt)) = toordinal dt"
    by simp_all
  with assms show ?thesis by (intro toordinal_inj)
qed

section \<open>Selection against the deadline\<close>

lemma strptime_Ymd_valid:
  assumes "strptime_Ymd s = Inr d"
  shows "valid_date d"
proof -
  from assms obtain y m dd where "new_date y m dd = Inr d"
    unfolding strptime_Ymd_def by (auto split: list.splits prod.splits if_splits)
  then show ?thesis
    unfolding new_date_valid valid_date_def by (auto split: if_splits)
qed

lemma extract_dagrun_dt_valid:
  assumes "extract_dagrun_dt_from_path p = Inr (Some d)"
  shows "valid_date d"
proof -
  from assms obtain s where "strptime_Ymd s = Inr d"
    unfolding extract_dagrun_dt_from_path_def by (auto split: option.splits sum.splits)
  then show ?thesis by (rule strptime_Ymd_valid)
qed

lemma date_sub_deadline:
  assumes "valid_date now_dt" "0 \<le> ttl" "ttl < toordinal now_dt"
  shows "date_sub now_dt ttl = Inr (deadline_of now_dt ttl)"
    and "timedelta ttl = Inr ttl"
proof -
  from assms(1) have "toordinal now_dt \<le> MAXORDINAL"
    unfolding valid_date_def toordinal_def by (rule ymd2ord_bounds(4))
  then have m: "toordinal now_dt \<le> 3652059" by (simp add: MAXORDINAL_def)
  with assms(2,3) show "timedelta ttl = Inr ttl" by (simp add: timedelta_def)
  from m assms(2,3) show "date_sub now_dt ttl = Inr (deadline_of now_dt ttl)"
    by (simp add: date_sub_def timedelta_def date_add_def deadline_of_def MAXORDINAL_def)
qed

lemma deadline_of_correct:
  assumes "valid_date now_dt" "0 \<le> ttl" "ttl < toordinal now_dt"
  shows "valid_date (deadline_of now_dt ttl)"
    and "toordinal (deadline_of now_dt ttl) = toordinal now_dt - ttl"
proof -
  from assms(1) have "toordinal now_dt \<le> MAXORDINAL"
    unfolding valid_date_def toordinal_def by (rule ymd2ord_bounds(4))
  with assms(2,3) have "1 \<le> toordinal now_dt - ttl" "toordinal now_dt - ttl \<le> MAXORDINAL"
    by simp_all
  from ord2ymd_correct [OF this]
  show "valid_date (deadline_of now_dt ttl)"
    and "toordinal (deadline_of now_dt ttl) = toordinal now_dt - ttl"
    unfolding deadline_of_def by simp_all
qed

text \<open>
  C2, amended. Let the clock reading be a date of the calendar, every path yield a date, and
  \<open>0 \<le> ttl_days < toordinal today\<close>, so that the deadline, the date \<open>ttl_days\<close> days before today,
  is not before 0001-01-01. Then \<open>choose_expired_logs\<close> returns the items of the input, in
  input order, whose date lies strictly before the deadline, that is, whose day number is
  smaller than today's minus \<open>ttl_days\<close>. An item dated on the deadline is retained. With
  \<open>ttl_days = 0\<close> the deadline is today: an item of yesterday is selected, an item of today
  is not.
\<close>

theorem choose_expired_logs_selects:
  assumes "valid_date now_dt" "0 \<le> ttl" "ttl < toordinal now_dt"
    and "\<forall>f\<in>set log_files. has_date f"
  shows "choose_expired_logs now_dt log_files ttl =
           Inr (filter (is_expired (deadline_of now_dt ttl)) log_files) \<and>
         date_sub now_dt ttl = Inr (deadline_of now_dt ttl) \<and>
         valid_date (deadline_of now_dt ttl) \<and>
         toordinal (deadline_of now_dt ttl) = toordinal now_dt - ttl \<and>
         (\<forall>f\<in>set log_files. \<forall>d. extract_dagrun_dt_from_path (object_name f) = Inr (Some d) \<longrightarrow>
            (is_expired (deadline_of now_dt ttl) f \<longleftrightarrow> toordinal d < toordinal now_dt - ttl)) \<and>
         (\<forall>f\<in>set log_files. extract_dagrun_dt_from_path (object_name f) = Inr (Some (deadline_of now_dt ttl))
            \<longrightarrow> \<not> is_expired (deadline_of now_dt ttl) f) \<and>
         (ttl = 0 \<longrightarrow> deadline_of now_dt ttl = now_dt)"
proof -
  note ds = date_sub_deadline [OF assms(1-3)]
  note dl = deadline_of_correct [OF assms(1-3)]
  have 1: "choose_expired_logs now_dt log_files ttl =
           Inr (filter (is_expired (deadline_of now_dt ttl)) log_files)"
    unfolding choose_expired_logs_def using ds assms(4) by (simp add: choose_loop_dated)
  have 2: "is_expired (deadline_of now_dt ttl) f \<longleftrightarrow> toordinal d < toordinal now_dt - ttl"
    if "extract_dagrun_dt_from_path (object_name f) = Inr (Some d)" for f d
  proof -
    from that have "valid_date d" by (rule extract_dagrun_dt_valid)
    then have "date_lt d (deadline_of now_dt ttl) \<longleftrightarrow> toordinal d < toordinal (deadline_of now_dt ttl)"
      using dl(1) by (rule date_lt_iff_toordinal)
    with that dl(2) show ?thesis by (simp add: is_expired_def)
  qed
  have 3: "\<not> is_expired (deadline_of now_dt ttl) f"
    if "extract_dagrun_dt_from_path (object_name f) = Inr (Some (deadline_of now_dt ttl))" for f
    using 2 [OF that] dl(2) by simp
  have 4: "deadline_of now_dt ttl = now_dt" if "ttl = 0"
    using that assms(1) by (simp add: deadline_of_def ord2ymd_toordinal)
  from 1 ds(1) dl 2 3 4 show ?thesis by blast
qed

theorem choose_expired_logs_selects_witness:
  "choose_expired_logs \<lparr>year = 2024, month = 6, day = 10\<rparr>
     [\<lparr>bucket_name = ''logs'', object_name = ''a/dag_id=x/run_id=m__2024-06-09/f.log''\<rparr>,
      \<lparr>bucket_name = ''logs'', object_name = ''a/dag_id=y/run_id=n__2024-06-10/f.log''\<rparr>] 0 =
   Inr [\<lparr>bucket_name = ''logs'', object_name = ''a/dag_id=x/run_id=m__2024-06-09/f.log''\<rparr>]"
proof -
  let ?now = "\<lparr>year = 2024, month = 6, day = 10\<rparr>"
  let ?fs = "[\<lparr>bucket_name = ''logs'', object_name = ''a/dag_id=x/run_id=m__2024-06-09/f.log''\<rparr>,
      \<lparr>bucket_name = ''logs'', object_name = ''a/dag_id=y/run_id=n__2024-06-10/f.log''\<rparr>]"
  have 1: "valid_date ?now" by (simp add: valid_date_def valid_calendar_date_def)
  have 2: "(0::int) \<le> 0" by simp
  have 3: "0 < toordinal ?now" by (simp add: date_defs)
  have 4: "\<forall>f\<in>set ?fs. has_date f" by (simp add: has_date_def parse_defs date_defs)
  have 5: "deadline_of ?now 0 = ?now" by (simp add: deadline_of_def date_defs)
  from choose_expired_logs_selects [OF 1 2 3 4]
  have "choose_expired_logs ?now ?fs 0 = Inr (filter (is_expired (deadline_of ?now 0)) ?fs)"
    by blast
  then show ?thesis
    unfolding 5 by (simp add: is_expired_def parse_defs date_defs)
qed

text \<open>
  C2, as stated for every \<open>ttl_days \<ge> 0\<close>, fails: with a million days the deadline would
  lie before the first date that \<open>datetime.date\<close> can hold, and the subtraction raises
  \<open>OverflowError\<close>.
\<close>

theorem choose_expired_logs_overflow_counterexample:
  "choose_expired_logs \<lparr>year = 2024, month = 6, day = 10\<rparr>
     [\<lparr>bucket_name = ''logs'', object_name = ''a/dag_id=x/run_id=m__2024-01-01/f.log''\<rparr>] 1000000 =
   Inl OverflowError"
  by (simp add: choose_expired_logs_def date_defs)

end
